theory Spec2Isabelle
  imports Main "HOL-Library.AList"
begin

section \<open>Data model (src/reflow/types.ts, src/utils/interval-utils.ts)\<close>

text \<open>
  The reflow engine of the repository: the interval primitives, the shift window resolver and
  the working-minutes allocator of \<open>src/utils/date-utils.ts\<close> (the file \<open>src/unnamed/part_002\<close>),
  the topological sort of \<open>src/reflow/dag.ts\<close>, the driver of \<open>src/reflow/reflow.service.ts\<close>, the
  validators of \<open>src/reflow/constraint-checker.ts\<close> and the sample scenarios. Names are the
  source's, except where two types share a field name or the name is a keyword here
  (\<open>Interval.start\<close>, \<open>Interval.end\<close> are \<open>istart\<close>, \<open>iend\<close>; the fields of a work center are
  \<open>wcDocId\<close>, \<open>wcName\<close>; those of a maintenance window \<open>mwStartDate\<close>, \<open>mwEndDate\<close>).
\<close>

text \<open>
  A luxon \<open>DateTime\<close> in zone UTC is modelled by its epoch milliseconds (\<open>toMillis\<close>), an
  unbounded integer. Comparison of two \<open>DateTime\<close>s (\<open><\<close>, \<open>>=\<close>) is comparison of these numbers.

  An ISO-8601 string is kept abstract: the value \<open>Iso c t\<close> stands for a string that denotes the
  instant \<open>t\<close>; the flag \<open>c\<close> says whether it is spelled the way luxon's \<open>toISO()\<close> prints it
  (\<open>2026-03-02T08:00:00.000Z\<close>). The literals of the sample scenarios (\<open>2026-03-02T08:00:00Z\<close>) are
  spelled differently, so they are \<open>Iso False t\<close>. Equality of \<open>iso\<close> values is equality of strings
  (\<open>!==\<close> in the source).
\<close>

datatype iso = Iso (canonical: bool) (fromISO: int)

definition toISO :: "int \<Rightarrow> iso" where
  "toISO t = Iso True t"

text \<open>\<open>Interval\<close>: \<open>start\<close> inclusive, \<open>end\<close> exclusive. The optional \<open>reason\<close> only feeds error
  messages and is left out.\<close>

record interval =
  istart :: int
  iend :: int

record shift =
  dayOfWeek :: int
  startHour :: int
  endHour :: int

record maintenanceWindow =
  mwStartDate :: iso
  mwEndDate :: iso

text \<open>\<open>WorkOrder\<close>: \<open>docId\<close> and the fields of \<open>data\<close> in one record.\<close>

record workOrder =
  docId :: string
  workOrderNumber :: string
  manufacturingOrderId :: string
  workCenterId :: string
  startDate :: iso
  endDate :: iso
  durationMinutes :: int
  isMaintenance :: bool
  dependsOnWorkOrderIds :: "string list"
  setupTimeMinutes :: "int option"

record workCenter =
  wcDocId :: string
  wcName :: string
  shifts :: "shift list"
  maintenanceWindows :: "maintenanceWindow list"

text \<open>\<open>Change\<close>, without its \<open>reason\<close> (one fixed string); \<open>ReflowResult\<close>, without its
  \<open>explanation\<close> (two fixed strings) and with the two fields of \<open>metrics\<close> inlined.\<close>

record change =
  workOrderId :: string
  chWorkOrderNumber :: string
  oldStart :: iso
  newStart :: iso
  oldEnd :: iso
  newEnd :: iso
  deltaMinutes :: int

record reflowInput =
  workOrders :: "workOrder list"
  workCenters :: "workCenter list"

record reflowResult =
  updatedWorkOrders :: "workOrder list"
  changes :: "change list"
  totalDelayMinutes :: int
  movedCount :: nat

text \<open>Every \<open>throw new Error(...)\<close> of the sources, one constructor per message.\<close>

datatype error =
    NoShiftsDefined
  | NoShiftWindowInHorizon
  | UnknownDependency string
  | CyclicDependency
  | MissingCenterBookings string
  | MissingWorkOrder string
  | UnknownWorkCenter string
  | ParentNotScheduled string
  | OverlapDetected string
  | MaintenanceBoundaryViolated string

subsection \<open>Interval primitives (src/utils/interval-utils.ts)\<close>

definition overlaps :: "interval \<Rightarrow> interval \<Rightarrow> bool" where
  "overlaps a b \<longleftrightarrow> istart a < iend b \<and> istart b < iend a"

text \<open>\<open>Array.prototype.sort\<close> is stable; so is the insertion sort \<open>sort_key\<close>.\<close>

definition sortIntervals :: "interval list \<Rightarrow> interval list" where
  "sortIntervals intervals = sort_key istart intervals"

fun pushOutOfBlocked :: "int \<Rightarrow> interval list \<Rightarrow> int" where
  "pushOutOfBlocked cursor [] = cursor"
| "pushOutOfBlocked cursor (b # bs) =
     (if cursor \<ge> istart b \<and> cursor < iend b then iend b
      else pushOutOfBlocked cursor bs)"

section \<open>Shift windows and the working-minutes allocator (src/unnamed/part_002)\<close>

definition msPerMinute :: int where "msPerMinute = 60000"
definition msPerHour :: int where "msPerHour = 3600000"
definition msPerDay :: int where "msPerDay = 86400000"

text \<open>\<open>startOf("day")\<close> in UTC.\<close>

definition startOfDay :: "int \<Rightarrow> int" where
  "startOfDay t = t - t mod msPerDay"

text \<open>luxon's \<open>weekday\<close>: Monday = 1 .. Sunday = 7. Epoch day 0 (1970-01-01) is a Thursday.\<close>

definition weekday :: "int \<Rightarrow> int" where
  "weekday t = (t div msPerDay + 3) mod 7 + 1"

definition shiftIntervalForDay :: "int \<Rightarrow> shift \<Rightarrow> interval" where
  "shiftIntervalForDay day s =
     \<lparr> istart = day + startHour s * msPerHour, iend = day + endHour s * msPerHour \<rparr>"

text \<open>The windows of the day \<open>d\<close> days after the cursor's day, sorted by start.\<close>

definition dayWindows :: "int \<Rightarrow> shift list \<Rightarrow> nat \<Rightarrow> interval list" where
  "dayWindows cursor shs d =
     (let day = startOfDay (cursor + int d * msPerDay);
          dow = weekday day mod 7
      in sort_key istart (map (shiftIntervalForDay day) (filter (\<lambda>s. dayOfWeek s = dow) shs)))"

text \<open>The body of \<open>for (let d = 0; d < 14; d++)\<close>, over the days still to visit.\<close>

fun searchDays :: "int \<Rightarrow> shift list \<Rightarrow> nat list \<Rightarrow> error + interval" where
  "searchDays cursor shs [] = Inl NoShiftWindowInHorizon"
| "searchDays cursor shs (d # ds) =
     (let ws = dayWindows cursor shs d in
      if ws = [] then searchDays cursor shs ds
      else if d = 0 then
        (case find (\<lambda>w. cursor < iend w) ws of
           Some w \<Rightarrow> Inr \<lparr> istart = (if cursor < istart w then istart w else cursor), iend = iend w \<rparr>
         | None \<Rightarrow> searchDays cursor shs ds)
      else Inr \<lparr> istart = istart (hd ws), iend = iend (hd ws) \<rparr>)"

definition findNextShiftWindow :: "int \<Rightarrow> shift list \<Rightarrow> error + interval" where
  "findNextShiftWindow cursor shs =
     (if shs = [] then Inl NoShiftsDefined else searchDays cursor shs [0..<14])"

text \<open>The first block that could cut the current shift segment (the \<open>for (const b of
  blockedSorted)\<close> loop with its \<open>continue\<close> and two \<open>break\<close>s).\<close>

fun nextBlock :: "int \<Rightarrow> int \<Rightarrow> interval list \<Rightarrow> interval option" where
  "nextBlock cursor shiftEnd [] = None"
| "nextBlock cursor shiftEnd (b # bs) =
     (if iend b \<le> cursor then nextBlock cursor shiftEnd bs
      else if istart b \<ge> shiftEnd then None
      else Some b)"

text \<open>The state of the \<open>while (remaining > 0)\<close> loop.\<close>

record alloc =
  cursor :: int
  remaining :: int
  scheduledStart :: "int option"

text \<open>One pass through the loop body: the next state, or the error thrown by
  \<open>findNextShiftWindow\<close>. Every path of the body ends in \<open>continue\<close> or at the end of the body.\<close>

definition allocBody :: "shift list \<Rightarrow> interval list \<Rightarrow> alloc \<Rightarrow> error + alloc" where
  "allocBody shs blockedSorted st =
     (case findNextShiftWindow (cursor st) shs of
        Inl e \<Rightarrow> Inl e
      | Inr shiftWindow \<Rightarrow>
          let c1 = (if cursor st < istart shiftWindow then istart shiftWindow else cursor st);
              c2 = pushOutOfBlocked c1 blockedSorted;
              c3 = (if c2 < istart shiftWindow then istart shiftWindow else c2)
          in
          if c3 \<ge> iend shiftWindow then Inr (st\<lparr>cursor := iend shiftWindow + msPerMinute\<rparr>)
          else
            let sched = (case scheduledStart st of None \<Rightarrow> Some c3 | Some s \<Rightarrow> Some s);
                shiftEnd = iend shiftWindow;
                nb = nextBlock c3 shiftEnd blockedSorted;
                freeEnd = (case nb of
                             Some b \<Rightarrow> if istart b > c3
                                       then (if istart b < shiftEnd then istart b else shiftEnd)
                                       else shiftEnd
                           | None \<Rightarrow> shiftEnd)
            in
            if freeEnd \<le> c3 then
              (case nb of
                 Some b \<Rightarrow> Inr (st\<lparr>cursor := iend b, scheduledStart := sched\<rparr>)
               | None \<Rightarrow> Inr (st\<lparr>cursor := shiftEnd + msPerMinute, scheduledStart := sched\<rparr>))
            else
              let freeMinutes = (freeEnd - c3) div msPerMinute in
              if freeMinutes \<le> 0 then
                Inr (st\<lparr>cursor := freeEnd + msPerMinute, scheduledStart := sched\<rparr>)
              else
                let used = min (remaining st) freeMinutes in
                Inr \<lparr> cursor = pushOutOfBlocked (c3 + used * msPerMinute) blockedSorted,
                      remaining = remaining st - used,
                      scheduledStart = sched \<rparr>)"

text \<open>The loop may run forever (a shift with \<open>endHour \<le> startHour\<close> never lets the cursor
  work), so it is a partial function: \<open>None\<close> is "does not return".\<close>

partial_function (option) allocWhile ::
  "shift list \<Rightarrow> interval list \<Rightarrow> alloc \<Rightarrow> (error + alloc) option" where
  "allocWhile shs blockedSorted st =
     (if remaining st > 0 then
        (case allocBody shs blockedSorted st of
           Inl e \<Rightarrow> Some (Inl e)
         | Inr st' \<Rightarrow> allocWhile shs blockedSorted st')
      else Some (Inr st))"

declare allocWhile.simps [code]

text \<open>\<open>scheduleWithShiftsAndBlocks\<close>: the pair \<open>(startISO, endISO)\<close> of the returned object.\<close>

definition scheduleWithShiftsAndBlocks ::
  "iso \<Rightarrow> int \<Rightarrow> shift list \<Rightarrow> interval list \<Rightarrow> (error + iso \<times> iso) option" where
  "scheduleWithShiftsAndBlocks startIso duration shs blocked =
     (let blockedSorted = sortIntervals blocked;
          c0 = pushOutOfBlocked (fromISO startIso) blockedSorted
      in case allocWhile shs blockedSorted \<lparr> cursor = c0, remaining = duration, scheduledStart = None \<rparr> of
           None \<Rightarrow> None
         | Some (Inl e) \<Rightarrow> Some (Inl e)
         | Some (Inr st) \<Rightarrow>
             Some (Inr (toISO (case scheduledStart st of None \<Rightarrow> fromISO startIso | Some s \<Rightarrow> s),
                        toISO (cursor st))))"

subsection \<open>The earlier allocator (src/unnamed/part_001)\<close>

text \<open>
  A second file holds another \<open>scheduleWithShiftsAndBlocks\<close>. Its \<open>findNextShiftWindow\<close> has
  the same body as the one above; its loop does not clamp the cursor to the start of the shift
  window, and it fixes \<open>scheduledStart\<close> before the loop. The loop state is the pair
  \<open>(cursor, remaining)\<close>.
\<close>

definition allocBody_part001 :: "shift list \<Rightarrow> interval list \<Rightarrow> int \<times> int \<Rightarrow> error + int \<times> int" where
  "allocBody_part001 shs blockedSorted st =
     (case findNextShiftWindow (fst st) shs of
        Inl e \<Rightarrow> Inl e
      | Inr shiftWindow \<Rightarrow>
          let c = pushOutOfBlocked (fst st) blockedSorted
          in
          if c \<ge> iend shiftWindow then Inr (iend shiftWindow + msPerMinute, snd st)
          else
            let shiftEnd = iend shiftWindow;
                nb = nextBlock c shiftEnd blockedSorted;
                freeEnd = (case nb of
                             Some b \<Rightarrow> if istart b > c
                                       then (if istart b < shiftEnd then istart b else shiftEnd)
                                       else shiftEnd
                           | None \<Rightarrow> shiftEnd)
            in
            if freeEnd \<le> c then
              (case nb of
                 Some b \<Rightarrow> Inr (iend b, snd st)
               | None \<Rightarrow> Inr (shiftEnd + msPerMinute, snd st))
            else
              let freeMinutes = (freeEnd - c) div msPerMinute in
              if freeMinutes \<le> 0 then Inr (freeEnd + msPerMinute, snd st)
              else
                let used = min (snd st) freeMinutes in
                Inr (pushOutOfBlocked (c + used * msPerMinute) blockedSorted, snd st - used))"

partial_function (option) allocWhile_part001 ::
  "shift list \<Rightarrow> interval list \<Rightarrow> int \<times> int \<Rightarrow> (error + int \<times> int) option" where
  "allocWhile_part001 shs blockedSorted st =
     (if snd st > 0 then
        (case allocBody_part001 shs blockedSorted st of
           Inl e \<Rightarrow> Some (Inl e)
         | Inr st' \<Rightarrow> allocWhile_part001 shs blockedSorted st')
      else Some (Inr st))"

declare allocWhile_part001.simps [code]

definition scheduleWithShiftsAndBlocks_part001 ::
  "iso \<Rightarrow> int \<Rightarrow> shift list \<Rightarrow> interval list \<Rightarrow> (error + iso \<times> iso) option" where
  "scheduleWithShiftsAndBlocks_part001 startIso duration shs blocked =
     (let blockedSorted = sortIntervals blocked;
          c0 = pushOutOfBlocked (fromISO startIso) blockedSorted
      in case allocWhile_part001 shs blockedSorted (c0, duration) of
           None \<Rightarrow> None
         | Some (Inl e) \<Rightarrow> Some (Inl e)
         | Some (Inr st) \<Rightarrow> Some (Inr (toISO c0, toISO (fst st))))"

section \<open>Insertion-ordered containers\<close>

text \<open>
  A JavaScript \<open>Map\<close> iterates in insertion order and \<open>set\<close> on a present key keeps the key's
  place: an association list with \<open>AList.update\<close> as \<open>set\<close> and \<open>map_of\<close> as \<open>get\<close>.
  \<open>new Map(entries)\<close> sets the entries one after the other. A \<open>Set\<close> is the list of its
  elements in the order of their first insertion.
\<close>

definition mapOfEntries :: "('k \<times> 'v) list \<Rightarrow> ('k \<times> 'v) list" where
  "mapOfEntries es = fold (\<lambda>(k, v) m. AList.update k v m) es []"

definition setOfList :: "'a list \<Rightarrow> 'a list" where
  "setOfList xs = fold (\<lambda>x s. if x \<in> set s then s else s @ [x]) xs []"

section \<open>Dependency ordering (src/reflow/dag.ts)\<close>

text \<open>\<open>inDegree.get(id) ?? 0\<close>\<close>

definition degOf :: "(string \<times> int) list \<Rightarrow> string \<Rightarrow> int" where
  "degOf inDegree k = (case map_of inDegree k of None \<Rightarrow> 0 | Some d \<Rightarrow> d)"

text \<open>\<open>adj.get(id)!\<close>: the key is present wherever the source reads it (it is a node).\<close>

definition adjOf :: "(string \<times> string list) list \<Rightarrow> string \<Rightarrow> string list" where
  "adjOf adj k = (case map_of adj k of None \<Rightarrow> [] | Some cs \<Rightarrow> cs)"

text \<open>The inner loop over \<open>wo.data.dependsOnWorkOrderIds\<close> for the order \<open>child\<close>.\<close>

fun addEdges :: "string list \<Rightarrow> string \<Rightarrow> string list \<Rightarrow>
    (string \<times> int) list \<times> (string \<times> string list) list \<Rightarrow>
    error + (string \<times> int) list \<times> (string \<times> string list) list" where
  "addEdges nodes child [] st = Inr st"
| "addEdges nodes child (parentId # ps) (inDegree, adj) =
     (if parentId \<notin> set nodes then Inl (UnknownDependency parentId)
      else addEdges nodes child ps
             (AList.update child (degOf inDegree child + 1) inDegree,
              AList.update parentId (adjOf adj parentId @ [child]) adj))"

fun buildGraph :: "string list \<Rightarrow> workOrder list \<Rightarrow>
    (string \<times> int) list \<times> (string \<times> string list) list \<Rightarrow>
    error + (string \<times> int) list \<times> (string \<times> string list) list" where
  "buildGraph nodes [] st = Inr st"
| "buildGraph nodes (wo # wos) st =
     (case addEdges nodes (docId wo) (dependsOnWorkOrderIds wo) st of
        Inl e \<Rightarrow> Inl e
      | Inr st' \<Rightarrow> buildGraph nodes wos st')"

text \<open>\<open>for (const child of adj.get(id)!)\<close>: decrement, and enqueue on reaching zero.\<close>

fun relaxChildren :: "string list \<Rightarrow> (string \<times> int) list \<times> string list \<Rightarrow>
    (string \<times> int) list \<times> string list" where
  "relaxChildren [] st = st"
| "relaxChildren (child # cs) (inDegree, queue) =
     (let inDegree' = AList.update child (degOf inDegree child - 1) inDegree
      in relaxChildren cs
           (inDegree', if degOf inDegree' child = 0 then queue @ [child] else queue))"

text \<open>What bounds the \<open>while (queue.length)\<close> loop: the queue and the nodes still waiting.\<close>

definition kahnMeasure :: "(string \<times> int) list \<times> string list \<Rightarrow> nat" where
  "kahnMeasure st = length (snd st) + length (filter (\<lambda>kv. snd kv \<ge> 1) (fst st))"

lemma filter_update_absent:
  "map_of al k = None \<Longrightarrow>
   length (filter (\<lambda>kv. snd kv \<ge> (1::int)) (AList.update k v al)) =
   length (filter (\<lambda>kv. snd kv \<ge> 1) al) + (if v \<ge> 1 then 1 else 0)"
  by (induction al) (auto split: if_splits)

lemma filter_update_present:
  "map_of al k = Some d \<Longrightarrow>
   length (filter (\<lambda>kv. snd kv \<ge> (1::int)) (AList.update k v al)) + (if d \<ge> 1 then 1 else 0) =
   length (filter (\<lambda>kv. snd kv \<ge> 1) al) + (if v \<ge> 1 then 1 else 0)"
  by (induction al) (auto split: if_splits)

lemma degOf_update_same: "degOf (AList.update k v al) k = v"
  by (simp add: degOf_def update_conv')

lemma kahnMeasure_relaxChildren: "kahnMeasure (relaxChildren cs st) \<le> kahnMeasure st"
proof (induction cs st rule: relaxChildren.induct)
  case (1 st)
  show ?case by simp
next
  case (2 child cs inDegree queue)
  let ?d = "degOf inDegree child"
  let ?inDegree' = "AList.update child (?d - 1) inDegree"
  let ?queue' = "if degOf ?inDegree' child = 0 then queue @ [child] else queue"
  have step: "kahnMeasure (?inDegree', ?queue') \<le> kahnMeasure (inDegree, queue)"
  proof (cases "map_of inDegree child")
    case None
    then have "?d = 0" by (simp add: degOf_def)
    with None filter_update_absent [OF None, of "?d - 1"] show ?thesis
      by (simp add: kahnMeasure_def degOf_update_same)
  next
    case (Some d)
    then have "?d = d" by (simp add: degOf_def)
    with Some filter_update_present [OF Some, of "?d - 1"] show ?thesis
      by (auto simp: kahnMeasure_def degOf_update_same split: if_splits)
  qed
  have "kahnMeasure (relaxChildren (child # cs) (inDegree, queue)) =
        kahnMeasure (relaxChildren cs (?inDegree', ?queue'))"
    by (simp add: Let_def)
  also have "\<dots> \<le> kahnMeasure (?inDegree', ?queue')"
    using "2.IH" [of ?inDegree'] by simp
  finally show ?case using step by simp
qed

function kahnLoop :: "(string \<times> string list) list \<Rightarrow> (string \<times> int) list \<Rightarrow>
    string list \<Rightarrow> string list \<Rightarrow> string list" where
  "kahnLoop adj inDegree [] result = result"
| "kahnLoop adj inDegree (n # queue) result =
     (case relaxChildren (adjOf adj n) (inDegree, queue) of
        (inDegree', queue') \<Rightarrow> kahnLoop adj inDegree' queue' (result @ [n]))"
  by pat_completeness auto
termination
proof (relation "measure (\<lambda>(adj, inDegree, queue, result). kahnMeasure (inDegree, queue))", goal_cases)
  case 1
  show ?case by simp
next
  case (2 adj inDegree n queue result inDegree' queue')
  then have "kahnMeasure (inDegree', queue') \<le> kahnMeasure (inDegree, queue)"
    using kahnMeasure_relaxChildren [of "adjOf adj n" "(inDegree, queue)"] by (simp flip: 2)
  moreover have "kahnMeasure (inDegree, queue) < kahnMeasure (inDegree, n # queue)"
    by (simp add: kahnMeasure_def)
  ultimately show ?case by simp
qed

definition topoSortWorkOrders :: "workOrder list \<Rightarrow> error + string list" where
  "topoSortWorkOrders wos =
     (let nodes = setOfList (map docId wos);
          inDegree0 = fold (\<lambda>n m. AList.update n 0 m) nodes [];
          adj0 = fold (\<lambda>n m. AList.update n [] m) nodes []
      in case buildGraph nodes wos (inDegree0, adj0) of
           Inl e \<Rightarrow> Inl e
         | Inr (inDegree, adj) \<Rightarrow>
             let queue = map fst (filter (\<lambda>kv. snd kv = 0) inDegree);
                 result = kahnLoop adj inDegree queue []
             in if length result \<noteq> length wos then Inl CyclicDependency else Inr result)"

section \<open>The reflow driver (src/reflow/reflow.service.ts, src/reflow/constraint-checker.ts)\<close>

definition buildMaintenanceIntervals :: "workCenter \<Rightarrow> interval list" where
  "buildMaintenanceIntervals wc =
     map (\<lambda>m. \<lparr> istart = fromISO (mwStartDate m), iend = fromISO (mwEndDate m) \<rparr>)
       (maintenanceWindows wc)"

definition buildOrderInterval :: "workOrder \<Rightarrow> interval" where
  "buildOrderInterval order =
     \<lparr> istart = fromISO (startDate order), iend = fromISO (endDate order) \<rparr>"

text \<open>\<open>centerBooked.get(id) ?? []\<close>\<close>

definition bookedOf :: "(string \<times> interval list) list \<Rightarrow> string \<Rightarrow> interval list" where
  "bookedOf centerBooked k = (case map_of centerBooked k of None \<Rightarrow> [] | Some bs \<Rightarrow> bs)"

text \<open>The first loop: every maintenance work order is locked into its center's bookings.\<close>

fun lockMaintenance :: "workOrder list \<Rightarrow> (string \<times> interval list) list \<Rightarrow>
    error + (string \<times> interval list) list" where
  "lockMaintenance [] centerBooked = Inr centerBooked"
| "lockMaintenance (wo # wos) centerBooked =
     (if \<not> isMaintenance wo then lockMaintenance wos centerBooked
      else case map_of centerBooked (workCenterId wo) of
             None \<Rightarrow> Inl (MissingCenterBookings (workCenterId wo))
           | Some booked \<Rightarrow>
               lockMaintenance wos
                 (AList.update (workCenterId wo)
                    (sortIntervals (booked @ [buildOrderInterval wo])) centerBooked))"

text \<open>
  The state of the placement loop. \<open>scheduled\<close> maps an id to the very object that \<open>woMap\<close>
  holds for it, so the model keeps the keys of \<open>scheduled\<close> and reads the fields through
  \<open>woMap\<close>.
\<close>

record placement =
  woMap :: "(string \<times> workOrder) list"
  centerBooked :: "(string \<times> interval list) list"
  changesAcc :: "change list"
  scheduled :: "string list"

definition scheduledGet :: "placement \<Rightarrow> string \<Rightarrow> workOrder option" where
  "scheduledGet st k = (if k \<in> set (scheduled st) then map_of (woMap st) k else None)"

definition scheduledSet :: "string \<Rightarrow> placement \<Rightarrow> placement" where
  "scheduledSet k st =
     st\<lparr>scheduled := (if k \<in> set (scheduled st) then scheduled st else scheduled st @ [k])\<rparr>"

text \<open>The loop over the parents: the latest end among them and the order's own start.\<close>

fun latestParentEnd :: "placement \<Rightarrow> string list \<Rightarrow> int \<Rightarrow> error + int" where
  "latestParentEnd st [] latest = Inr latest"
| "latestParentEnd st (parentId # ps) latest =
     (case scheduledGet st parentId of
        None \<Rightarrow> Inl (ParentNotScheduled parentId)
      | Some parent \<Rightarrow>
          let parentEnd = fromISO (endDate parent)
          in latestParentEnd st ps (if parentEnd > latest then parentEnd else latest))"

definition earliestStart :: "placement \<Rightarrow> workOrder \<Rightarrow> error + int" where
  "earliestStart st wo =
     (let earliest = fromISO (startDate wo)
      in if length (dependsOnWorkOrderIds wo) > 0
         then latestParentEnd st (dependsOnWorkOrderIds wo) earliest
         else Inr earliest)"

definition mkChange :: "workOrder \<Rightarrow> iso \<Rightarrow> iso \<Rightarrow> change" where
  "mkChange wo originalStart originalEnd =
     \<lparr> workOrderId = docId wo,
       chWorkOrderNumber = workOrderNumber wo,
       oldStart = originalStart,
       newStart = startDate wo,
       oldEnd = originalEnd,
       newEnd = endDate wo,
       deltaMinutes = (fromISO (endDate wo) - fromISO originalEnd) div msPerMinute \<rparr>"

text \<open>One pass through the body of \<open>for (const id of topoIds)\<close>.\<close>

definition placeOrder :: "(string \<times> workCenter) list \<Rightarrow> placement \<Rightarrow> string \<Rightarrow>
    (error + placement) option" where
  "placeOrder wcMap st n =
     (case map_of (woMap st) n of
        None \<Rightarrow> Some (Inl (MissingWorkOrder n))
      | Some wo \<Rightarrow>
     (case map_of wcMap (workCenterId wo) of
        None \<Rightarrow> Some (Inl (UnknownWorkCenter (workCenterId wo)))
      | Some wc \<Rightarrow>
     if isMaintenance wo then Some (Inr (scheduledSet n st))
     else
       let originalStart = startDate wo;
           originalEnd = endDate wo
       in
       (case earliestStart st wo of
          Inl e \<Rightarrow> Some (Inl e)
        | Inr earliest \<Rightarrow>
       let totalMinutes = durationMinutes wo +
             (case setupTimeMinutes wo of None \<Rightarrow> 0 | Some m \<Rightarrow> m);
           blocked = sortIntervals (bookedOf (centerBooked st) (wcDocId wc))
       in
       (case scheduleWithShiftsAndBlocks (toISO earliest) totalMinutes (shifts wc) blocked of
          None \<Rightarrow> None
        | Some (Inl e) \<Rightarrow> Some (Inl e)
        | Some (Inr (startIso, endIso)) \<Rightarrow>
       let wo' = wo\<lparr>startDate := startIso, endDate := endIso\<rparr>;
           bookedNow = bookedOf (centerBooked st) (wcDocId wc) @ [buildOrderInterval wo'];
           moved = (originalStart \<noteq> startDate wo' \<or> originalEnd \<noteq> endDate wo')
       in Some (Inr (scheduledSet n
            (st\<lparr> woMap := AList.update n wo' (woMap st),
                 centerBooked := AList.update (wcDocId wc) (sortIntervals bookedNow) (centerBooked st),
                 changesAcc := (if moved
                                then changesAcc st @ [mkChange wo' originalStart originalEnd]
                                else changesAcc st) \<rparr>)))))))"

fun placeAll :: "(string \<times> workCenter) list \<Rightarrow> string list \<Rightarrow> placement \<Rightarrow>
    (error + placement) option" where
  "placeAll wcMap [] st = Some (Inr st)"
| "placeAll wcMap (n # ns) st =
     (case placeOrder wcMap st n of
        None \<Rightarrow> None
      | Some (Inl e) \<Rightarrow> Some (Inl e)
      | Some (Inr st') \<Rightarrow> placeAll wcMap ns st')"

text \<open>The bookings seeded from the maintenance windows of every center.\<close>

definition seedBooked :: "workCenter list \<Rightarrow> (string \<times> interval list) list" where
  "seedBooked wcs = fold (\<lambda>wc m. AList.update (wcDocId wc) (buildMaintenanceIntervals wc) m) wcs []"

text \<open>The state in which the placement loop starts: the cloned orders, and the bookings after
  the maintenance orders were locked in.\<close>

definition initialPlacement :: "reflowInput \<Rightarrow> error + placement" where
  "initialPlacement input =
     (let wm = mapOfEntries (map (\<lambda>w. (docId w, w)) (workOrders input))
      in case lockMaintenance (map snd wm) (seedBooked (workCenters input)) of
           Inl e \<Rightarrow> Inl e
         | Inr cb \<Rightarrow> Inr \<lparr> woMap = wm, centerBooked = cb, changesAcc = [], scheduled = [] \<rparr>)"

definition reflow :: "reflowInput \<Rightarrow> (error + reflowResult) option" where
  "reflow input =
     (let wcMap = mapOfEntries (map (\<lambda>w. (wcDocId w, w)) (workCenters input));
          wm = mapOfEntries (map (\<lambda>w. (docId w, w)) (workOrders input))
      in case topoSortWorkOrders (map snd wm) of
           Inl e \<Rightarrow> Some (Inl e)
         | Inr topoIds \<Rightarrow>
      (case initialPlacement input of
           Inl e \<Rightarrow> Some (Inl e)
         | Inr st0 \<Rightarrow>
      (case placeAll wcMap topoIds st0 of
           None \<Rightarrow> None
         | Some (Inl e) \<Rightarrow> Some (Inl e)
         | Some (Inr st) \<Rightarrow>
             Some (Inr \<lparr> updatedWorkOrders = List.map_filter (scheduledGet st) topoIds,
                         changes = changesAcc st,
                         totalDelayMinutes = fold (\<lambda>c sum. sum + max 0 (deltaMinutes c)) (changesAcc st) 0,
                         movedCount = length (changesAcc st) \<rparr>))))"

subsection \<open>The validators of src/reflow/constraint-checker.ts\<close>

definition groupByCenter :: "workOrder list \<Rightarrow> (string \<times> workOrder list) list" where
  "groupByCenter wos =
     fold (\<lambda>wo m. AList.update (workCenterId wo)
                     ((case map_of m (workCenterId wo) of None \<Rightarrow> [] | Some l \<Rightarrow> l) @ [wo]) m)
       wos []"

text \<open>\<open>for (let i = 1; i < intervals.length; i++) if (overlaps(intervals[i-1], intervals[i]))\<close>\<close>

fun adjacentOverlap :: "interval list \<Rightarrow> bool" where
  "adjacentOverlap (a # b # rest) = (overlaps a b \<or> adjacentOverlap (b # rest))"
| "adjacentOverlap [a] = False"
| "adjacentOverlap [] = False"

fun checkCenters :: "(string \<times> workOrder list) list \<Rightarrow> error + unit" where
  "checkCenters [] = Inr ()"
| "checkCenters ((wcId, orders) # rest) =
     (if adjacentOverlap (sortIntervals (map buildOrderInterval orders))
      then Inl (OverlapDetected wcId)
      else checkCenters rest)"

definition validateNoWorkCenterOverlaps :: "workOrder list \<Rightarrow> error + unit" where
  "validateNoWorkCenterOverlaps wos = checkCenters (groupByCenter wos)"

definition startsInside :: "workOrder \<Rightarrow> maintenanceWindow \<Rightarrow> bool" where
  "startsInside wo mw \<longleftrightarrow>
     fromISO (startDate wo) \<ge> fromISO (mwStartDate mw) \<and>
     fromISO (startDate wo) < fromISO (mwEndDate mw)"

definition endsInside :: "workOrder \<Rightarrow> maintenanceWindow \<Rightarrow> bool" where
  "endsInside wo mw \<longleftrightarrow>
     fromISO (endDate wo) > fromISO (mwStartDate mw) \<and>
     fromISO (endDate wo) \<le> fromISO (mwEndDate mw)"

fun checkWindows :: "workOrder \<Rightarrow> maintenanceWindow list \<Rightarrow> bool" where
  "checkWindows wo [] = True"
| "checkWindows wo (mw # mws) =
     (if startsInside wo mw \<or> endsInside wo mw then False else checkWindows wo mws)"

fun validateOrders :: "(string \<times> workCenter) list \<Rightarrow> workOrder list \<Rightarrow> error + unit" where
  "validateOrders wcMap [] = Inr ()"
| "validateOrders wcMap (wo # wos) =
     (case map_of wcMap (workCenterId wo) of
        None \<Rightarrow> Inl (UnknownWorkCenter (workCenterId wo))
      | Some wc \<Rightarrow>
          if checkWindows wo (maintenanceWindows wc) then validateOrders wcMap wos
          else Inl (MaintenanceBoundaryViolated (workOrderNumber wo)))"

definition validateMaintenanceRespected :: "workOrder list \<Rightarrow> workCenter list \<Rightarrow> error + unit" where
  "validateMaintenanceRespected wos wcs =
     validateOrders (mapOfEntries (map (\<lambda>w. (wcDocId w, w)) wcs)) wos"

section \<open>Sample data (src/sample-data/scenarios.ts)\<close>

text \<open>
  The date literals of the scenarios. \<open>epochDay y m d\<close> is the number of days from 1970-01-01
  to the civil date \<open>y-m-d\<close> of the proleptic Gregorian calendar; \<open>utc y m d h mi\<close> is the
  instant \<open>y-m-dTh:mi:00Z\<close> in epoch milliseconds, and \<open>lit y m d h mi\<close> is that literal as it
  is spelled in the scenarios (without milliseconds).
\<close>

definition epochDay :: "int \<Rightarrow> int \<Rightarrow> int \<Rightarrow> int" where
  "epochDay y m d =
     (let y' = (if m \<le> 2 then y - 1 else y);
          era = y' div 400;
          yoe = y' - era * 400;
          doy = (153 * (if m > 2 then m - 3 else m + 9) + 2) div 5 + d - 1;
          doe = yoe * 365 + yoe div 4 - yoe div 100 + doy
      in era * 146097 + doe - 719468)"

definition utc :: "int \<Rightarrow> int \<Rightarrow> int \<Rightarrow> int \<Rightarrow> int \<Rightarrow> int" where
  "utc y m d h mi = epochDay y m d * msPerDay + h * msPerHour + mi * msPerMinute"

definition lit :: "int \<Rightarrow> int \<Rightarrow> int \<Rightarrow> int \<Rightarrow> int \<Rightarrow> iso" where
  "lit y m d h mi = Iso False (utc y m d h mi)"

definition dayShift :: "shift list" where
  "dayShift =
     [\<lparr> dayOfWeek = 1, startHour = 8, endHour = 17 \<rparr>,
      \<lparr> dayOfWeek = 2, startHour = 8, endHour = 17 \<rparr>,
      \<lparr> dayOfWeek = 3, startHour = 8, endHour = 17 \<rparr>,
      \<lparr> dayOfWeek = 4, startHour = 8, endHour = 17 \<rparr>,
      \<lparr> dayOfWeek = 5, startHour = 8, endHour = 17 \<rparr>]"

definition wc1 :: workCenter where
  "wc1 = \<lparr> wcDocId = ''wc1'', wcName = ''Extrusion Line 1'', shifts = dayShift,
           maintenanceWindows =
             [\<lparr> mwStartDate = lit 2026 3 3 10 0, mwEndDate = lit 2026 3 3 13 0 \<rparr>] \<rparr>"

definition wc2 :: workCenter where
  "wc2 = \<lparr> wcDocId = ''wc2'', wcName = ''Extrusion Line 2'', shifts = dayShift,
           maintenanceWindows = [] \<rparr>"

text \<open>The helper \<open>wo\<close> of the scenarios: \<open>workOrderNumber\<close> is always the \<open>docId\<close> there.\<close>

definition wo :: "string \<Rightarrow> string \<Rightarrow> iso \<Rightarrow> iso \<Rightarrow> int \<Rightarrow> bool \<Rightarrow> string list \<Rightarrow> workOrder" where
  "wo n wc s e dur maint deps =
     \<lparr> docId = n, workOrderNumber = n, manufacturingOrderId = ''MO-1'', workCenterId = wc,
       startDate = s, endDate = e, durationMinutes = dur, isMaintenance = maint,
       dependsOnWorkOrderIds = deps, setupTimeMinutes = None \<rparr>"

definition scenario1_delayCascade :: reflowInput where
  "scenario1_delayCascade =
     \<lparr> workOrders =
         [wo ''A'' ''wc1'' (lit 2026 3 2 8 0) (lit 2026 3 2 10 0) (6 * 60) False [],
          wo ''B'' ''wc1'' (lit 2026 3 2 10 0) (lit 2026 3 2 12 0) (2 * 60) False [''A''],
          wo ''C'' ''wc1'' (lit 2026 3 2 12 0) (lit 2026 3 2 14 0) (2 * 60) False [''B'']],
       workCenters = [wc1] \<rparr>"

definition scenario2_shiftSpanning :: reflowInput where
  "scenario2_shiftSpanning =
     \<lparr> workOrders =
         [wo ''S1'' ''wc2'' (lit 2026 3 2 16 0) (lit 2026 3 2 18 0) 120 False []],
       workCenters = [wc2] \<rparr>"

definition scenario3_maintenanceConflict :: reflowInput where
  "scenario3_maintenanceConflict =
     \<lparr> workOrders =
         [wo ''M1'' ''wc1'' (lit 2026 3 3 8 30) (lit 2026 3 3 9 30) 60 True [],
          wo ''P1'' ''wc1'' (lit 2026 3 3 9 0) (lit 2026 3 3 12 0) 180 False []],
       workCenters = [wc1] \<rparr>"

text \<open>What a test reads off a result: the updated orders, and the id, start and end of each
  as instants. \<open>None\<close> when the call throws or does not return.\<close>

definition reflowOrders :: "reflowInput \<Rightarrow> workOrder list option" where
  "reflowOrders input =
     (case reflow input of
        None \<Rightarrow> None
      | Some (Inl e) \<Rightarrow> None
      | Some (Inr res) \<Rightarrow> Some (updatedWorkOrders res))"

definition spanOf :: "workOrder \<Rightarrow> string \<times> int \<times> int" where
  "spanOf w = (docId w, fromISO (startDate w), fromISO (endDate w))"

definition reflowSpans :: "reflowInput \<Rightarrow> (string \<times> int \<times> int) list option" where
  "reflowSpans input = map_option (map spanOf) (reflowOrders input)"

text \<open>Inputs built from the same helpers, used below.\<close>

definition fourOrdersAtEight :: reflowInput where
  "fourOrdersAtEight =
     \<lparr> workOrders =
         [wo ''O1'' ''wc2'' (lit 2026 3 2 8 0) (lit 2026 3 2 9 0) 60 False [],
          wo ''O2'' ''wc2'' (lit 2026 3 2 8 0) (lit 2026 3 2 9 0) 60 False [],
          wo ''O3'' ''wc2'' (lit 2026 3 2 8 0) (lit 2026 3 2 9 0) 60 False [],
          wo ''O4'' ''wc2'' (lit 2026 3 2 8 0) (lit 2026 3 2 9 0) 60 False []],
       workCenters = [wc2] \<rparr>"

definition threeBlocks :: "interval list" where
  "threeBlocks =
     [\<lparr> istart = utc 2026 3 3 10 0, iend = utc 2026 3 3 11 0 \<rparr>,
      \<lparr> istart = utc 2026 3 3 11 0, iend = utc 2026 3 3 12 0 \<rparr>,
      \<lparr> istart = utc 2026 3 3 12 0, iend = utc 2026 3 3 13 0 \<rparr>]"

definition hourBeforeMaintenance :: reflowInput where
  "hourBeforeMaintenance =
     \<lparr> workOrders =
         [wo ''P1'' ''wc1'' (lit 2026 3 3 9 0) (lit 2026 3 3 10 0) 60 False []],
       workCenters = [wc1] \<rparr>"

definition maintenanceChild :: reflowInput where
  "maintenanceChild =
     \<lparr> workOrders =
         [wo ''A'' ''wc2'' (lit 2026 3 2 8 0) (lit 2026 3 2 10 0) 360 False [],
          wo ''M'' ''wc2'' (lit 2026 3 2 9 0) (lit 2026 3 2 10 0) 60 True [''A'']],
       workCenters = [wc2] \<rparr>"

section \<open>Valid inputs and what is read off a result\<close>

text \<open>
  A shift as the data model has it: a day of the week in \<open>0..6\<close>, and hours with
  \<open>0 \<le> startHour < endHour \<le> 24\<close> (luxon makes an invalid \<open>DateTime\<close> of any other hour, which
  \<open>shiftIntervalForDay\<close> does not model). An input is valid when the ids of its work orders
  are pairwise distinct and every shift of every center is valid.
\<close>

definition validShift :: "shift \<Rightarrow> bool" where
  "validShift s \<longleftrightarrow>
     0 \<le> dayOfWeek s \<and> dayOfWeek s \<le> 6 \<and> 0 \<le> startHour s \<and> startHour s < endHour s \<and> endHour s \<le> 24"

definition validInput :: "reflowInput \<Rightarrow> bool" where
  "validInput input \<longleftrightarrow>
     distinct (map docId (workOrders input)) \<and>
     list_all (\<lambda>wc. list_all validShift (shifts wc)) (workCenters input)"

text \<open>The order of the input that an updated order comes from (the one with its id), and the
  change record the updated order must have: one if its start or end string differs from the
  original's, none otherwise.\<close>

definition originalOf :: "reflowInput \<Rightarrow> workOrder \<Rightarrow> workOrder option" where
  "originalOf input w = find (\<lambda>orig. docId orig = docId w) (workOrders input)"

definition changeOf :: "reflowInput \<Rightarrow> workOrder \<Rightarrow> change list" where
  "changeOf input w =
     (case originalOf input w of
        None \<Rightarrow> []
      | Some orig \<Rightarrow>
          if startDate orig \<noteq> startDate w \<or> endDate orig \<noteq> endDate w
          then [mkChange w (startDate orig) (endDate orig)] else [])"

text \<open>The result of a call that returns one (and an empty result otherwise).\<close>

definition resultOf :: "reflowInput \<Rightarrow> reflowResult" where
  "resultOf input =
     (case reflow input of
        Some (Inr res) \<Rightarrow> res
      | _ \<Rightarrow> \<lparr> updatedWorkOrders = [], changes = [], totalDelayMinutes = 0, movedCount = 0 \<rparr>)"

text \<open>One order that needs one hour of the four it was given.\<close>

definition earlyFinish :: reflowInput where
  "earlyFinish =
     \<lparr> workOrders =
         [wo ''X'' ''wc2'' (lit 2026 3 2 8 0) (lit 2026 3 2 12 0) 60 False []],
       workCenters = [wc2] \<rparr>"

section \<open>The sample scenarios, run\<close>

text \<open>
  Claim C6, as the code has it. On the delay-cascade scenario the 360 minutes of \<open>A\<close> end at
  14:00 (not 16:00), so \<open>B\<close> runs 14:00 to 16:00 on the same day and \<open>C\<close> runs from 16:00 to
  09:00 of the next day: 60 minutes before the shift ends and 60 minutes from 08:00.
\<close>

theorem scenario1_spans:
  "reflowSpans scenario1_delayCascade =
     Some [(''A'', utc 2026 3 2 8 0, utc 2026 3 2 14 0),
           (''B'', utc 2026 3 2 14 0, utc 2026 3 2 16 0),
           (''C'', utc 2026 3 2 16 0, utc 2026 3 3 9 0)]"
  by code_simp

text \<open>The spans that claim C6 expects are not the ones \<open>reflow\<close> returns.\<close>

theorem scenario1_not_as_expected:
  "reflowSpans scenario1_delayCascade \<noteq>
     Some [(''A'', utc 2026 3 2 8 0, utc 2026 3 2 16 0),
           (''B'', utc 2026 3 2 16 0, utc 2026 3 3 9 0),
           (''C'', utc 2026 3 3 9 0, utc 2026 3 3 11 0)]"
  by code_simp

text \<open>
  Claim C1 at four one-hour orders that all ask for Monday 08:00 on one center. The first
  three are placed back to back; the fourth is pushed out of the first into the second, out of
  the second into the third, and then booked on top of the third: both run 10:00 to 11:00.
  The validator of the repository rejects this result.
\<close>

theorem fourOrdersAtEight_double_booked:
  "reflowSpans fourOrdersAtEight =
     Some [(''O1'', utc 2026 3 2 8 0, utc 2026 3 2 9 0),
           (''O2'', utc 2026 3 2 9 0, utc 2026 3 2 10 0),
           (''O3'', utc 2026 3 2 10 0, utc 2026 3 2 11 0),
           (''O4'', utc 2026 3 2 10 0, utc 2026 3 2 11 0)]
   \<and> overlaps \<lparr> istart = utc 2026 3 2 10 0, iend = utc 2026 3 2 11 0 \<rparr>
               \<lparr> istart = utc 2026 3 2 10 0, iend = utc 2026 3 2 11 0 \<rparr>
   \<and> map_option validateNoWorkCenterOverlaps (reflowOrders fourOrdersAtEight) =
       Some (Inl (OverlapDetected ''wc2''))"
  by code_simp

text \<open>
  Claim C2 at three blocked hours in a row, 10:00 to 13:00 on a Tuesday, and 60 minutes asked
  from 10:30. The cursor is pushed to 11:00, then to 12:00, and the 60 minutes are then counted
  from 12:00 to 13:00, inside the third block; the first usable instant is 13:00.
\<close>

theorem allocator_works_inside_third_block:
  "scheduleWithShiftsAndBlocks (lit 2026 3 3 10 30) 60 dayShift threeBlocks =
     Some (Inr (toISO (utc 2026 3 3 12 0), toISO (utc 2026 3 3 13 0)))
   \<and> istart (last threeBlocks) = utc 2026 3 3 12 0
   \<and> iend (last threeBlocks) = utc 2026 3 3 13 0"
  by code_simp

text \<open>
  Claim C3 at one hour of work from Tuesday 09:00 on the center whose maintenance window is
  10:00 to 13:00. The work ends at 10:00; the cursor is then pushed out of the window, and
  the order ends at 13:00, the end of the window. The validator of the repository counts
  that as ending inside the window.
\<close>

theorem hourBeforeMaintenance_ends_with_window:
  "reflowSpans hourBeforeMaintenance = Some [(''P1'', utc 2026 3 3 9 0, utc 2026 3 3 13 0)]
   \<and> map_option (\<lambda>wos. validateMaintenanceRespected wos [wc1]) (reflowOrders hourBeforeMaintenance) =
       Some (Inl (MaintenanceBoundaryViolated ''P1''))"
  by code_simp

text \<open>
  Claim C4 fails where the child of a dependency edge is a maintenance order: \<open>M\<close> depends on
  \<open>A\<close> and keeps its start 09:00, while \<open>A\<close> (paused over \<open>M\<close>) ends at 15:00.
\<close>

theorem maintenanceChild_starts_before_parent_ends:
  "reflowSpans maintenanceChild =
     Some [(''A'', utc 2026 3 2 8 0, utc 2026 3 2 15 0),
           (''M'', utc 2026 3 2 9 0, utc 2026 3 2 10 0)]
   \<and> dependsOnWorkOrderIds (last (workOrders maintenanceChild)) = [''A'']
   \<and> \<not> utc 2026 3 2 9 0 \<ge> utc 2026 3 2 15 0"
  by code_simp

text \<open>
  Claim C7 fails where the given start lies in a blocked interval: with duration 0 and start
  11:00 inside the block 10:00 to 13:00, the returned start is 11:00 and the returned end is
  13:00.
\<close>

theorem zero_duration_in_block:
  "scheduleWithShiftsAndBlocks (lit 2026 3 3 11 0) 0 dayShift
       [\<lparr> istart = utc 2026 3 3 10 0, iend = utc 2026 3 3 13 0 \<rparr>] =
     Some (Inr (toISO (utc 2026 3 3 11 0), toISO (utc 2026 3 3 13 0)))
   \<and> utc 2026 3 3 13 0 \<noteq> utc 2026 3 3 11 0"
  by code_simp

text \<open>
  Claim C10 at 60 minutes asked from Monday 06:00, two hours before the shift, with nothing
  blocked. The allocator of the date-utils module starts at 08:00 and ends at 09:00; the
  other one works from 06:00 to 07:00, outside every shift.
\<close>

theorem allocators_differ_before_shift:
  "scheduleWithShiftsAndBlocks (lit 2026 3 2 6 0) 60 dayShift [] =
     Some (Inr (toISO (utc 2026 3 2 8 0), toISO (utc 2026 3 2 9 0)))
   \<and> scheduleWithShiftsAndBlocks_part001 (lit 2026 3 2 6 0) 60 dayShift [] =
     Some (Inr (toISO (utc 2026 3 2 6 0), toISO (utc 2026 3 2 7 0)))"
  by code_simp

section \<open>The allocator with nothing to allocate\<close>

lemma pushOutOfBlocked_free:
  "\<forall>b\<in>set bs. \<not> (istart b \<le> c \<and> c < iend b) \<Longrightarrow> pushOutOfBlocked c bs = c"
  by (induction bs) auto

lemma pushOutOfBlocked_ge: "c \<le> pushOutOfBlocked c bs"
  by (induction bs) auto

lemma set_sortIntervals: "set (sortIntervals bs) = set bs"
  by (simp add: sortIntervals_def)

lemma allocWhile_done:
  "remaining st \<le> 0 \<Longrightarrow> allocWhile shs bs st = Some (Inr st)"
  by (subst allocWhile.simps) simp

text \<open>
  Claim C7, as the code has it. With \<open>durationMinutes = 0\<close> the loop returns its initial state
  at once, whatever the shift table (even an empty one, which would throw on the first pass);
  the returned end is the given start pushed out of the first blocked interval that holds it;
  and where no blocked interval holds the given start, start and end are both the given start.
\<close>

theorem zero_duration_result:
  "allocWhile shs (sortIntervals blocked)
       \<lparr> cursor = pushOutOfBlocked (fromISO startIso) (sortIntervals blocked), remaining = 0,
         scheduledStart = None \<rparr> =
     Some (Inr \<lparr> cursor = pushOutOfBlocked (fromISO startIso) (sortIntervals blocked),
                 remaining = 0, scheduledStart = None \<rparr>)
   \<and> (\<exists>s. scheduleWithShiftsAndBlocks startIso 0 shs blocked =
            Some (Inr (s, toISO (pushOutOfBlocked (fromISO startIso) (sortIntervals blocked)))))
   \<and> ((\<forall>b\<in>set blocked. \<not> (istart b \<le> fromISO startIso \<and> fromISO startIso < iend b)) \<longrightarrow>
        scheduleWithShiftsAndBlocks startIso 0 shs blocked =
          Some (Inr (toISO (fromISO startIso), toISO (fromISO startIso))))"
  by (simp add: scheduleWithShiftsAndBlocks_def Let_def allocWhile_done pushOutOfBlocked_free
      set_sortIntervals)

text \<open>A zero-duration call at Tuesday 09:00, before the block 10:00 to 13:00.\<close>

theorem zero_duration_result_witness:
  "scheduleWithShiftsAndBlocks (lit 2026 3 3 9 0) 0 []
       [\<lparr> istart = utc 2026 3 3 10 0, iend = utc 2026 3 3 13 0 \<rparr>] =
     Some (Inr (toISO (utc 2026 3 3 9 0), toISO (utc 2026 3 3 9 0)))"
proof -
  have free: "\<forall>b\<in>set [\<lparr> istart = utc 2026 3 3 10 0, iend = utc 2026 3 3 13 0 \<rparr>].
       \<not> (istart b \<le> fromISO (lit 2026 3 3 9 0) \<and> fromISO (lit 2026 3 3 9 0) < iend b)"
    by code_simp
  from zero_duration_result [of "[]" "[\<lparr> istart = utc 2026 3 3 10 0, iend = utc 2026 3 3 13 0 \<rparr>]" "lit 2026 3 3 9 0"] free
  have "scheduleWithShiftsAndBlocks (lit 2026 3 3 9 0) 0 []
        [\<lparr> istart = utc 2026 3 3 10 0, iend = utc 2026 3 3 13 0 \<rparr>] =
      Some (Inr (toISO (fromISO (lit 2026 3 3 9 0)), toISO (fromISO (lit 2026 3 3 9 0))))"
    by blast
  then show ?thesis by (simp add: lit_def)
qed

section \<open>The shift window resolver\<close>

lemma searchDays_future:
  "0 \<notin> set ds \<Longrightarrow>
   searchDays cur shs ds =
     (case find (\<lambda>d. dayWindows cur shs d \<noteq> []) ds of
        None \<Rightarrow> Inl NoShiftWindowInHorizon
      | Some d \<Rightarrow> Inr (hd (dayWindows cur shs d)))"
  by (induction ds) (auto simp: Let_def)

lemma searchDays_today:
  "0 \<notin> set ds \<Longrightarrow>
   searchDays cur shs (0 # ds) =
     (case find (\<lambda>w. cur < iend w) (dayWindows cur shs 0) of
        Some w \<Rightarrow> Inr \<lparr> istart = max cur (istart w), iend = iend w \<rparr>
      | None \<Rightarrow>
          (case find (\<lambda>d. dayWindows cur shs d \<noteq> []) ds of
             None \<Rightarrow> Inl NoShiftWindowInHorizon
           | Some d \<Rightarrow> Inr (hd (dayWindows cur shs d))))"
  by (auto simp: Let_def max_def searchDays_future split: option.splits)

lemma upt_14: "[0..<14] = 0 # [1..<14]"
  by (simp add: upt_conv_Cons)

lemma findNextShiftWindow_unfold:
  "findNextShiftWindow cur shs =
     (if shs = [] then Inl NoShiftsDefined
      else case find (\<lambda>w. cur < iend w) (dayWindows cur shs 0) of
             Some w \<Rightarrow> Inr \<lparr> istart = max cur (istart w), iend = iend w \<rparr>
           | None \<Rightarrow>
               (case find (\<lambda>d. dayWindows cur shs d \<noteq> []) [1..<14] of
                  None \<Rightarrow> Inl NoShiftWindowInHorizon
                | Some d \<Rightarrow> Inr (hd (dayWindows cur shs d))))"
proof -
  have z: "0 \<notin> set [1..<14]" by simp
  show ?thesis
    unfolding findNextShiftWindow_def upt_14 searchDays_today [OF z] ..
qed

lemma dayWindows_Nil: "dayWindows cur [] d = []"
  by (simp add: dayWindows_def)

lemma find_first_day:
  "find P [1..<14] = Some d \<longleftrightarrow> (1 \<le> d \<and> d < 14 \<and> P d \<and> (\<forall>d'. 1 \<le> d' \<and> d' < d \<longrightarrow> \<not> P d'))"
proof
  assume "find P [1..<14] = Some d"
  then obtain i where i: "i < length [1..<14]" "P ([1..<14] ! i)" "d = [1..<14] ! i"
      "\<forall>j<i. \<not> P ([1..<14] ! j)"
    unfolding find_Some_iff by blast
  from i(1) have i13: "i < 13" by simp
  with i(3) have d: "d = 1 + i" by simp
  have "\<not> P d'" if "1 \<le> d'" "d' < d" for d'
  proof -
    from that d have "d' - 1 < i" by simp
    with i(4) have "\<not> P ([1..<14] ! (d' - 1))" by blast
    moreover from that d i13 have "[1..<14] ! (d' - 1) = d'" by simp
    ultimately show ?thesis by simp
  qed
  with i13 d i(2,3) show "1 \<le> d \<and> d < 14 \<and> P d \<and> (\<forall>d'. 1 \<le> d' \<and> d' < d \<longrightarrow> \<not> P d')"
    by auto
next
  assume a: "1 \<le> d \<and> d < 14 \<and> P d \<and> (\<forall>d'. 1 \<le> d' \<and> d' < d \<longrightarrow> \<not> P d')"
  have "\<exists>i<length [1..<14]. P ([1..<14] ! i) \<and> d = [1..<14] ! i \<and> (\<forall>j<i. \<not> P ([1..<14] ! j))"
  proof (intro exI [of _ "d - 1"] conjI allI impI)
    from a have d: "1 \<le> d" "d < 14" by simp_all
    from d show "d - 1 < length [1..<14]" by simp
    from d have nth: "[1..<14] ! (d - 1) = d" by simp
    from a nth show "P ([1..<14] ! (d - 1))" by simp
    from nth show "d = [1..<14] ! (d - 1)" by simp
    fix j assume j: "j < d - 1"
    with d have "[1..<14] ! j = 1 + j" by simp
    moreover from j a have "\<not> P (1 + j)" by simp
    ultimately show "\<not> P ([1..<14] ! j)" by simp
  qed
  then show "find P [1..<14] = Some d" unfolding find_Some_iff .
qed

lemma find_no_day:
  "find P [1..<14] = None \<longleftrightarrow> (\<forall>d'. 1 \<le> d' \<and> d' < 14 \<longrightarrow> \<not> P d')"
  by (auto simp: find_None_iff)

lemma sorted_dayWindows: "sorted (map istart (dayWindows cur shs d))"
  by (simp add: dayWindows_def Let_def)

lemma hd_sorted_least:
  "sorted (map f ws) \<Longrightarrow> w \<in> set ws \<Longrightarrow> f (hd ws) \<le> f w"
  by (cases ws) auto

text \<open>
  Claim C9. With \<open>dayWindows cur shs d\<close> the windows of the day \<open>d\<close> days after the cursor's,
  sorted by start: (1) if some window of the cursor's day ends after the cursor, the first such
  window \<open>w\<close> is returned as \<open>[max(cursor, w.start), w.end)\<close>; (2) if none does, the result is
  the first window, which has the least start, of the first day \<open>d\<close> in \<open>1..13\<close> that has any;
  (3) the call fails exactly when neither the cursor's day nor any of the 13 days after it yields
  a window; (4) it fails on an empty shift table.
\<close>

theorem findNextShiftWindow_cases:
  "(find (\<lambda>w. cur < iend w) (dayWindows cur shs 0) = Some w \<longrightarrow>
      findNextShiftWindow cur shs = Inr \<lparr> istart = max cur (istart w), iend = iend w \<rparr>)
   \<and> (find (\<lambda>w. cur < iend w) (dayWindows cur shs 0) = None \<and>
      1 \<le> d \<and> d < 14 \<and> dayWindows cur shs d \<noteq> [] \<and>
      (\<forall>d'. 1 \<le> d' \<and> d' < d \<longrightarrow> dayWindows cur shs d' = []) \<longrightarrow>
      findNextShiftWindow cur shs = Inr (hd (dayWindows cur shs d)) \<and>
      (\<forall>w' \<in> set (dayWindows cur shs d). istart (hd (dayWindows cur shs d)) \<le> istart w'))
   \<and> ((\<exists>e. findNextShiftWindow cur shs = Inl e) \<longleftrightarrow>
      find (\<lambda>w. cur < iend w) (dayWindows cur shs 0) = None \<and>
      (\<forall>d'. 1 \<le> d' \<and> d' < 14 \<longrightarrow> dayWindows cur shs d' = []))
   \<and> (shs = [] \<longrightarrow> findNextShiftWindow cur shs = Inl NoShiftsDefined)
   \<and> sorted (map istart (dayWindows cur shs d))"
proof (intro conjI impI)
  assume "find (\<lambda>w. cur < iend w) (dayWindows cur shs 0) = Some w"
  moreover from this have "shs \<noteq> []" by (auto simp: dayWindows_Nil)
  ultimately show "findNextShiftWindow cur shs = Inr \<lparr> istart = max cur (istart w), iend = iend w \<rparr>"
    by (simp add: findNextShiftWindow_unfold)
next
  assume a: "find (\<lambda>w. cur < iend w) (dayWindows cur shs 0) = None \<and>
      1 \<le> d \<and> d < 14 \<and> dayWindows cur shs d \<noteq> [] \<and>
      (\<forall>d'. 1 \<le> d' \<and> d' < d \<longrightarrow> dayWindows cur shs d' = [])"
  then have ne: "shs \<noteq> []" by (auto simp: dayWindows_Nil)
  from a have "find (\<lambda>d. dayWindows cur shs d \<noteq> []) [1..<14] = Some d"
    unfolding find_first_day by simp
  with a ne show "findNextShiftWindow cur shs = Inr (hd (dayWindows cur shs d))"
    by (simp add: findNextShiftWindow_unfold)
  show "\<forall>w' \<in> set (dayWindows cur shs d). istart (hd (dayWindows cur shs d)) \<le> istart w'"
    using hd_sorted_least [OF sorted_dayWindows] by blast
next
  show "(\<exists>e. findNextShiftWindow cur shs = Inl e) \<longleftrightarrow>
      find (\<lambda>w. cur < iend w) (dayWindows cur shs 0) = None \<and>
      (\<forall>d'. 1 \<le> d' \<and> d' < 14 \<longrightarrow> dayWindows cur shs d' = [])"
  proof (cases "shs = []")
    case True
    then show ?thesis by (simp add: findNextShiftWindow_unfold dayWindows_Nil)
  next
    case False
    show ?thesis
    proof (cases "find (\<lambda>w. cur < iend w) (dayWindows cur shs 0)")
      case (Some w)
      with False show ?thesis by (simp add: findNextShiftWindow_unfold)
    next
      case None
      show ?thesis
      proof (cases "find (\<lambda>d. dayWindows cur shs d \<noteq> []) [1..<14]")
        case n: None
        with None False show ?thesis
          using find_no_day [of "\<lambda>d. dayWindows cur shs d \<noteq> []"]
          by (simp add: findNextShiftWindow_unfold)
      next
        case (Some d0)
        then have "\<not> (\<forall>d'. 1 \<le> d' \<and> d' < 14 \<longrightarrow> dayWindows cur shs d' = [])"
          unfolding find_first_day by blast
        with None Some False show ?thesis
          by (simp add: findNextShiftWindow_unfold)
      qed
    qed
  qed
next
  assume "shs = []"
  then show "findNextShiftWindow cur shs = Inl NoShiftsDefined"
    by (simp add: findNextShiftWindow_def)
next
  show "sorted (map istart (dayWindows cur shs d))" by (rule sorted_dayWindows)
qed

text \<open>Monday 16:00 lies in Monday's shift; after Friday 17:00 the next window is Monday's,
  three days on; an empty table fails.\<close>

theorem findNextShiftWindow_cases_witness:
  "find (\<lambda>w. utc 2026 3 2 16 0 < iend w) (dayWindows (utc 2026 3 2 16 0) dayShift 0) =
      Some \<lparr> istart = utc 2026 3 2 8 0, iend = utc 2026 3 2 17 0 \<rparr>
   \<and> findNextShiftWindow (utc 2026 3 2 16 0) dayShift =
      Inr \<lparr> istart = utc 2026 3 2 16 0, iend = utc 2026 3 2 17 0 \<rparr>
   \<and> find (\<lambda>w. utc 2026 3 6 17 0 < iend w) (dayWindows (utc 2026 3 6 17 0) dayShift 0) = None
   \<and> dayWindows (utc 2026 3 6 17 0) dayShift 1 = []
   \<and> dayWindows (utc 2026 3 6 17 0) dayShift 2 = []
   \<and> findNextShiftWindow (utc 2026 3 6 17 0) dayShift =
      Inr \<lparr> istart = utc 2026 3 9 8 0, iend = utc 2026 3 9 17 0 \<rparr>
   \<and> findNextShiftWindow (utc 2026 3 2 16 0) [] = Inl NoShiftsDefined"
proof -
  let ?mon = "utc 2026 3 2 16 0" and ?fri = "utc 2026 3 6 17 0"
  have today: "find (\<lambda>w. ?mon < iend w) (dayWindows ?mon dayShift 0) =
      Some \<lparr> istart = utc 2026 3 2 8 0, iend = utc 2026 3 2 17 0 \<rparr>"
    by code_simp
  have mx: "max ?mon (utc 2026 3 2 8 0) = ?mon"
    by code_simp
  have r1: "findNextShiftWindow ?mon dayShift = Inr \<lparr> istart = ?mon, iend = utc 2026 3 2 17 0 \<rparr>"
    using findNextShiftWindow_cases [of ?mon dayShift "\<lparr> istart = utc 2026 3 2 8 0, iend = utc 2026 3 2 17 0 \<rparr>" 1]
      today mx by simp
  have none: "find (\<lambda>w. ?fri < iend w) (dayWindows ?fri dayShift 0) = None"
    by code_simp
  have d1: "dayWindows ?fri dayShift 1 = []" and d2: "dayWindows ?fri dayShift 2 = []"
    by code_simp+
  have d3: "dayWindows ?fri dayShift 3 = [\<lparr> istart = utc 2026 3 9 8 0, iend = utc 2026 3 9 17 0 \<rparr>]"
    by code_simp
  have before: "\<forall>d'. 1 \<le> d' \<and> d' < 3 \<longrightarrow> dayWindows ?fri dayShift d' = []"
  proof (intro allI impI)
    fix d' :: nat assume "1 \<le> d' \<and> d' < 3"
    then have "d' = 1 \<or> d' = 2" by arith
    with d1 d2 show "dayWindows ?fri dayShift d' = []" by auto
  qed
  have r2: "findNextShiftWindow ?fri dayShift =
      Inr \<lparr> istart = utc 2026 3 9 8 0, iend = utc 2026 3 9 17 0 \<rparr>"
    using findNextShiftWindow_cases [of ?fri dayShift "\<lparr> istart = 0, iend = 0 \<rparr>" 3] none before d3 by simp
  have r3: "findNextShiftWindow ?mon [] = Inl NoShiftsDefined"
    using findNextShiftWindow_cases [of ?mon "[]" "\<lparr> istart = 0, iend = 0 \<rparr>" 1] by simp
  from today r1 none d1 d2 r2 r3 show ?thesis by blast
qed

section \<open>The topological order\<close>

text \<open>
  Whatever the dependency lists are, a node is enqueued at most once: every id in the result or
  in the queue has an in-degree of at most zero, and an id is pushed only when its in-degree
  falls from one to zero. So the ids returned by \<open>topoSortWorkOrders\<close> are pairwise distinct,
  and each is the id of an order.
\<close>

lemma degOf_update: "degOf (AList.update k v al) n = (if n = k then v else degOf al n)"
  by (simp add: degOf_def update_conv')

lemma adjOf_update: "adjOf (AList.update k v al) n = (if n = k then v else adjOf al n)"
  by (simp add: adjOf_def update_conv')

definition kahnInv :: "(string \<times> int) list \<Rightarrow> string list \<Rightarrow> string list \<Rightarrow> bool" where
  "kahnInv inDegree result queue \<longleftrightarrow>
     distinct (result @ queue) \<and> (\<forall>n \<in> set (result @ queue). degOf inDegree n \<le> 0)"

lemma relaxChildren_inv:
  "kahnInv inDegree result queue \<Longrightarrow> relaxChildren cs (inDegree, queue) = (inDegree', queue') \<Longrightarrow>
   kahnInv inDegree' result queue'"
proof (induction cs arbitrary: inDegree queue)
  case Nil
  then show ?case by simp
next
  case (Cons child cs)
  let ?d = "degOf inDegree child"
  let ?inDegree1 = "AList.update child (?d - 1) inDegree"
  let ?queue1 = "if degOf ?inDegree1 child = 0 then queue @ [child] else queue"
  have "kahnInv ?inDegree1 result ?queue1"
  proof (cases "?d = 1")
    case True
    with Cons.prems(1) have "child \<notin> set (result @ queue)"
      unfolding kahnInv_def by force
    with Cons.prems(1) True show ?thesis
      unfolding kahnInv_def by (auto simp: degOf_update)
  next
    case False
    have "degOf ?inDegree1 m \<le> 0" if "m \<in> set (result @ queue)" for m
    proof -
      from that Cons.prems(1) have "degOf inDegree m \<le> 0"
        unfolding kahnInv_def by blast
      then show ?thesis by (cases "m = child") (simp_all add: degOf_update)
    qed
    moreover from False have "?queue1 = queue" by (simp add: degOf_update)
    ultimately show ?thesis
      using Cons.prems(1) unfolding kahnInv_def by simp
  qed
  moreover from Cons.prems(2) have "relaxChildren cs (?inDegree1, ?queue1) = (inDegree', queue')"
    by (simp add: Let_def)
  ultimately show ?case by (rule Cons.IH)
qed

lemma relaxChildren_queue:
  "relaxChildren cs (inDegree, queue) = (inDegree', queue') \<Longrightarrow> set queue' \<subseteq> set queue \<union> set cs"
proof (induction cs arbitrary: inDegree queue)
  case Nil
  then show ?case by simp
next
  case (Cons child cs)
  let ?inDegree1 = "AList.update child (degOf inDegree child - 1) inDegree"
  let ?queue1 = "if degOf ?inDegree1 child = 0 then queue @ [child] else queue"
  from Cons.prems have "relaxChildren cs (?inDegree1, ?queue1) = (inDegree', queue')"
    by (simp add: Let_def)
  from Cons.IH [OF this] show ?case by (auto split: if_splits)
qed

lemma kahnLoop_distinct:
  "kahnInv inDegree result queue \<Longrightarrow> distinct (kahnLoop adj inDegree queue result)"
proof (induction adj inDegree queue result rule: kahnLoop.induct)
  case (1 adj inDegree result)
  then show ?case by (simp add: kahnInv_def)
next
  case (2 adj inDegree n queue result)
  obtain inDegree' queue' where r: "relaxChildren (adjOf adj n) (inDegree, queue) = (inDegree', queue')"
    by (cases "relaxChildren (adjOf adj n) (inDegree, queue)")
  from "2.prems" have "kahnInv inDegree (result @ [n]) queue"
    by (simp add: kahnInv_def)
  from relaxChildren_inv [OF this r] have "kahnInv inDegree' (result @ [n]) queue'" .
  with "2.IH" [OF r [symmetric]] r show ?case by simp
qed

lemma kahnLoop_subset:
  "set result \<union> set queue \<subseteq> N \<Longrightarrow> (\<forall>k. set (adjOf adj k) \<subseteq> N) \<Longrightarrow>
   set (kahnLoop adj inDegree queue result) \<subseteq> N"
proof (induction adj inDegree queue result rule: kahnLoop.induct)
  case (1 adj inDegree result)
  then show ?case by simp
next
  case (2 adj inDegree n queue result)
  obtain inDegree' queue' where r: "relaxChildren (adjOf adj n) (inDegree, queue) = (inDegree', queue')"
    by (cases "relaxChildren (adjOf adj n) (inDegree, queue)")
  from "2.prems"(2) have "set (adjOf adj n) \<subseteq> N" by blast
  with relaxChildren_queue [OF r] "2.prems"(1) have "set (result @ [n]) \<union> set queue' \<subseteq> N"
    by auto
  from "2.IH" [OF r [symmetric] this "2.prems"(2)] r show ?case by simp
qed

text \<open>What the graph construction keeps.\<close>

definition graphInv :: "string set \<Rightarrow> (string \<times> int) list \<times> (string \<times> string list) list \<Rightarrow> bool" where
  "graphInv N st \<longleftrightarrow>
     distinct (map fst (fst st)) \<and> fst ` set (fst st) \<subseteq> N \<and> (\<forall>k. set (adjOf (snd st) k) \<subseteq> N)"

lemma keys_update: "fst ` set (AList.update k v al) = insert k (fst ` set al)"
  by (induction al) auto

lemma addEdges_inv:
  "graphInv N st \<Longrightarrow> child \<in> N \<Longrightarrow> addEdges nodes child ps st = Inr st' \<Longrightarrow> graphInv N st'"
proof (induction ps arbitrary: st)
  case Nil
  then show ?case by simp
next
  case (Cons parentId ps)
  obtain inDegree adj where st: "st = (inDegree, adj)" by (cases st)
  let ?st1 = "(AList.update child (degOf inDegree child + 1) inDegree,
               AList.update parentId (adjOf adj parentId @ [child]) adj)"
  from Cons.prems(3) st have rest: "addEdges nodes child ps ?st1 = Inr st'"
    by (simp split: if_splits)
  from Cons.prems(1,2) st have "graphInv N ?st1"
    by (auto simp: graphInv_def distinct_update keys_update adjOf_update)
  from Cons.IH [OF this Cons.prems(2) rest] show ?case .
qed

lemma buildGraph_inv:
  "graphInv N st \<Longrightarrow> docId ` set wos \<subseteq> N \<Longrightarrow> buildGraph nodes wos st = Inr st' \<Longrightarrow> graphInv N st'"
proof (induction wos arbitrary: st)
  case Nil
  then show ?case by simp
next
  case (Cons wo wos)
  from Cons.prems(3) obtain st1 where
    e: "addEdges nodes (docId wo) (dependsOnWorkOrderIds wo) st = Inr st1" and
    b: "buildGraph nodes wos st1 = Inr st'"
    by (auto split: sum.splits)
  from Cons.prems(2) have "docId wo \<in> N" by simp
  from addEdges_inv [OF Cons.prems(1) this e] have "graphInv N st1" .
  from Cons.IH [OF this _ b] Cons.prems(2) show ?case by simp
qed

lemma set_setOfList_aux:
  "set (fold (\<lambda>x s. if x \<in> set s then s else s @ [x]) xs acc) = set acc \<union> set xs"
  by (induction xs arbitrary: acc) auto

lemma set_setOfList: "set (setOfList xs) = set xs"
  by (simp add: setOfList_def set_setOfList_aux)

lemma fold_update_keys:
  "fst ` set (fold (\<lambda>n m. AList.update n (v n) m) ns acc) = fst ` set acc \<union> set ns"
  by (induction ns arbitrary: acc) (auto simp: keys_update)

lemma fold_update_distinct:
  "distinct (map fst acc) \<Longrightarrow> distinct (map fst (fold (\<lambda>n m. AList.update n (v n) m) ns acc))"
  by (induction ns arbitrary: acc) (auto simp: distinct_update)

lemma fold_update_adj:
  "(\<forall>k. adjOf acc k = []) \<Longrightarrow> adjOf (fold (\<lambda>n m. AList.update n [] m) ns acc) k = []"
  by (induction ns arbitrary: acc) (auto simp: adjOf_update)

lemma topoSortWorkOrders_distinct:
  assumes "topoSortWorkOrders wos = Inr ids"
  shows "distinct ids \<and> set ids \<subseteq> docId ` set wos \<and> length ids = length wos"
proof -
  let ?N = "docId ` set wos"
  let ?nodes = "setOfList (map docId wos)"
  let ?inDegree0 = "fold (\<lambda>n m. AList.update n (0::int) m) ?nodes []"
  let ?adj0 = "fold (\<lambda>n m. AList.update n ([]::string list) m) ?nodes []"
  from assms obtain inDegree adj where
    g: "buildGraph ?nodes wos (?inDegree0, ?adj0) = Inr (inDegree, adj)" and
    ids: "ids = kahnLoop adj inDegree (map fst (filter (\<lambda>kv. snd kv = 0) inDegree)) []" and
    len: "length ids = length wos"
    by (auto simp: topoSortWorkOrders_def Let_def split: sum.splits if_splits)
  have "adjOf ?adj0 k = []" for k
    by (rule fold_update_adj) (simp add: adjOf_def)
  then have "graphInv ?N (?inDegree0, ?adj0)"
    using fold_update_keys [of "\<lambda>_. 0::int" ?nodes "[]"] fold_update_distinct [of "[]" "\<lambda>_. 0::int" ?nodes]
    by (simp add: graphInv_def set_setOfList)
  from buildGraph_inv [OF this _ g] have gi: "graphInv ?N (inDegree, adj)" by simp
  let ?queue = "map fst (filter (\<lambda>kv. snd kv = 0) inDegree)"
  from gi have d: "distinct (map fst inDegree)" by (simp add: graphInv_def)
  then have dq: "distinct ?queue" by (simp add: distinct_map_filter)
  have "degOf inDegree n \<le> 0" if "n \<in> set ?queue" for n
  proof -
    from that have "(n, 0) \<in> set inDegree" by auto
    with d have "map_of inDegree n = Some 0" by simp
    then show ?thesis by (simp add: degOf_def)
  qed
  with dq have "kahnInv inDegree [] ?queue" by (simp add: kahnInv_def)
  from kahnLoop_distinct [OF this] ids have "distinct ids" by simp
  moreover from gi have "set [] \<union> set ?queue \<subseteq> ?N" and "\<forall>k. set (adjOf adj k) \<subseteq> ?N"
    by (auto simp: graphInv_def)
  from kahnLoop_subset [OF this] ids have "set ids \<subseteq> ?N" by simp
  ultimately show ?thesis using len by simp
qed

section \<open>The allocator never starts before the given instant\<close>

text \<open>
  When no shift has a negative \<open>endHour\<close>, the window that \<open>findNextShiftWindow\<close> returns ends
  after the cursor, and every pass through the loop body leaves the cursor where it was or
  moves it forward.
\<close>

lemma startOfDay_plus: "startOfDay (t + int d * msPerDay) = startOfDay t + int d * msPerDay"
  by (simp add: startOfDay_def)

lemma startOfDay_bounds: "startOfDay t \<le> t \<and> t < startOfDay t + msPerDay"
  by (simp add: startOfDay_def msPerDay_def)

lemma dayWindows_elem:
  "w \<in> set (dayWindows cur shs d) \<Longrightarrow>
   \<exists>s \<in> set shs. w = shiftIntervalForDay (startOfDay cur + int d * msPerDay) s"
  by (auto simp: dayWindows_def Let_def startOfDay_plus)

lemma dayWindows_later_end:
  assumes "\<forall>s\<in>set shs. 0 \<le> endHour s" and "w \<in> set (dayWindows cur shs d)" and "0 < d"
  shows "cur < iend w"
proof -
  from dayWindows_elem [OF assms(2)] obtain s where
    s: "s \<in> set shs" "w = shiftIntervalForDay (startOfDay cur + int d * msPerDay) s"
    by blast
  from assms(1) s(1) have "0 \<le> endHour s * msPerHour" by (simp add: msPerHour_def)
  moreover from assms(3) have "msPerDay \<le> int d * msPerDay" by (simp add: msPerDay_def)
  moreover from s(2) have "iend w = startOfDay cur + int d * msPerDay + endHour s * msPerHour"
    by (simp add: shiftIntervalForDay_def)
  ultimately show ?thesis
    using startOfDay_bounds [of cur] by linarith
qed

lemma searchDays_end_after:
  "\<forall>s\<in>set shs. 0 \<le> endHour s \<Longrightarrow> searchDays cur shs ds = Inr w \<Longrightarrow> cur < iend w"
proof (induction ds)
  case Nil
  then show ?case by simp
next
  case (Cons d ds)
  show ?case
  proof (cases "dayWindows cur shs d = []")
    case True
    with Cons show ?thesis by (simp add: Let_def)
  next
    case ne: False
    show ?thesis
    proof (cases "d = 0")
      case True
      show ?thesis
      proof (cases "find (\<lambda>w. cur < iend w) (dayWindows cur shs 0)")
        case None
        with Cons ne True show ?thesis by (simp add: Let_def)
      next
        case (Some w0)
        then have "cur < iend w0" by (auto simp: find_Some_iff)
        with Cons.prems(2) ne True Some show ?thesis by (auto simp: Let_def)
      qed
    next
      case False
      with Cons.prems(2) ne have w: "w = hd (dayWindows cur shs d)" by (auto simp: Let_def)
      from ne have "hd (dayWindows cur shs d) \<in> set (dayWindows cur shs d)" by simp
      from dayWindows_later_end [OF Cons.prems(1) this] False w show ?thesis by simp
    qed
  qed
qed

lemma findNextShiftWindow_end_after:
  "\<forall>s\<in>set shs. 0 \<le> endHour s \<Longrightarrow> findNextShiftWindow cur shs = Inr w \<Longrightarrow> cur < iend w"
  by (auto simp: findNextShiftWindow_def split: if_splits dest: searchDays_end_after)

lemma nextBlock_Some: "nextBlock c e bs = Some b \<Longrightarrow> c < iend b"
  by (induction bs) (auto split: if_splits)


text \<open>What one pass through the loop body does to the cursor and to the recorded start.\<close>

definition advances :: "alloc \<Rightarrow> alloc \<Rightarrow> bool" where
  "advances st st' \<longleftrightarrow>
     cursor st \<le> cursor st' \<and>
     (case scheduledStart st of
        Some s \<Rightarrow> scheduledStart st' = Some s
      | None \<Rightarrow> (case scheduledStart st' of None \<Rightarrow> True | Some s' \<Rightarrow> cursor st \<le> s'))"

lemma allocBody_advances:
  assumes valid: "\<forall>s\<in>set shs. 0 \<le> endHour s"
    and pos: "0 < remaining st"
    and body: "allocBody shs bs st = Inr st'"
  shows "advances st st'"
proof -
  from body obtain w where w: "findNextShiftWindow (cursor st) shs = Inr w"
    by (auto simp: allocBody_def split: sum.splits)
  define c1 where "c1 = (if cursor st < istart w then istart w else cursor st)"
  define c2 where "c2 = pushOutOfBlocked c1 bs"
  define c3 where "c3 = (if c2 < istart w then istart w else c2)"
  define sched where "sched = (case scheduledStart st of None \<Rightarrow> Some c3 | Some s \<Rightarrow> Some s)"
  define nb where "nb = nextBlock c3 (iend w) bs"
  define freeEnd where "freeEnd = (case nb of
      Some b \<Rightarrow> if istart b > c3 then (if istart b < iend w then istart b else iend w) else iend w
    | None \<Rightarrow> iend w)"
  define used where "used = min (remaining st) ((freeEnd - c3) div msPerMinute)"
  have unfolded: "allocBody shs bs st =
      (if c3 \<ge> iend w then Inr (st\<lparr>cursor := iend w + msPerMinute\<rparr>)
       else if freeEnd \<le> c3 then
         (case nb of
            Some b \<Rightarrow> Inr (st\<lparr>cursor := iend b, scheduledStart := sched\<rparr>)
          | None \<Rightarrow> Inr (st\<lparr>cursor := iend w + msPerMinute, scheduledStart := sched\<rparr>))
       else if (freeEnd - c3) div msPerMinute \<le> 0 then
         Inr (st\<lparr>cursor := freeEnd + msPerMinute, scheduledStart := sched\<rparr>)
       else Inr \<lparr> cursor = pushOutOfBlocked (c3 + used * msPerMinute) bs,
                  remaining = remaining st - used, scheduledStart = sched \<rparr>)"
    unfolding allocBody_def Let_def w c1_def c2_def c3_def sched_def nb_def freeEnd_def used_def
    by (simp only: sum.case)
  have "cursor st \<le> c1" by (simp add: c1_def)
  moreover have "c1 \<le> c2" unfolding c2_def by (rule pushOutOfBlocked_ge)
  moreover have "c2 \<le> c3" by (simp add: c3_def)
  ultimately have c3: "cursor st \<le> c3" by linarith
  from findNextShiftWindow_end_after [OF valid w] have wend: "cursor st < iend w" .
  have sched: "case scheduledStart st of Some s \<Rightarrow> sched = Some s
      | None \<Rightarrow> (case sched of None \<Rightarrow> True | Some s' \<Rightarrow> cursor st \<le> s')"
    using c3 by (simp add: sched_def split: option.splits)
  show ?thesis
  proof (cases "c3 \<ge> iend w")
    case True
    with body unfolded have "st' = st\<lparr>cursor := iend w + msPerMinute\<rparr>"
      by simp
    with wend show ?thesis
      by (simp add: advances_def msPerMinute_def split: option.splits)
  next
    case False
    have fe: "c3 < freeEnd"
      using False by (simp add: freeEnd_def split: option.splits)
    show ?thesis
    proof (cases "(freeEnd - c3) div msPerMinute \<le> 0")
      case True
      with body unfolded False fe
      have "st' = st\<lparr>cursor := freeEnd + msPerMinute, scheduledStart := sched\<rparr>"
        by simp
      with fe c3 sched show ?thesis
        by (auto simp: advances_def msPerMinute_def split: option.splits)
    next
      case free: False
      with body unfolded False fe
      have st': "st' = \<lparr> cursor = pushOutOfBlocked (c3 + used * msPerMinute) bs,
                  remaining = remaining st - used, scheduledStart = sched \<rparr>"
        by simp
      from free pos have "0 < used" by (simp add: used_def)
      then have "0 \<le> used * msPerMinute" by (simp add: msPerMinute_def)
      with pushOutOfBlocked_ge [of "c3 + used * msPerMinute" bs] c3
      have "cursor st \<le> pushOutOfBlocked (c3 + used * msPerMinute) bs" by linarith
      with st' sched show ?thesis
        by (auto simp: advances_def split: option.splits)
    qed
  qed
qed

lemma advances_trans: "advances a b \<Longrightarrow> advances b c \<Longrightarrow> advances a c"
  by (auto simp: advances_def split: option.splits)

lemma advances_refl: "advances a a"
  by (simp add: advances_def split: option.splits)

lemma allocWhile_advances_aux:
  assumes run: "allocWhile shs bs st = Some r"
  shows "(\<forall>s\<in>set shs. 0 \<le> endHour s) \<longrightarrow> (\<forall>st'. r = Inr st' \<longrightarrow> advances st st')"
proof (rule allocWhile.raw_induct [where P = "\<lambda>shs bs st r.
    (\<forall>s\<in>set shs. 0 \<le> endHour s) \<longrightarrow> (\<forall>st'. r = Inr st' \<longrightarrow> advances st st')", OF _ run],
    goal_cases)
  case (1 loop shs bs st r)
  show ?case
  proof (intro impI allI)
    fix st'
    assume valid: "\<forall>s\<in>set shs. 0 \<le> endHour s" and r: "r = Inr st'"
    show "advances st st'"
    proof (cases "0 < remaining st")
      case False
      with 1(2) r show ?thesis by (simp add: advances_refl)
    next
      case True
      with 1(2) r obtain st1 where
        b: "allocBody shs bs st = Inr st1" and l: "loop shs bs st1 = Some r"
        by (auto split: sum.splits)
      from allocBody_advances [OF valid True b] have "advances st st1" .
      moreover from 1(1) [OF l] valid r have "advances st1 st'" by blast
      ultimately show ?thesis by (rule advances_trans)
    qed
  qed
qed

lemma allocWhile_advances:
  "allocWhile shs bs st = Some (Inr st') \<Longrightarrow> \<forall>s\<in>set shs. 0 \<le> endHour s \<Longrightarrow> advances st st'"
  using allocWhile_advances_aux by blast

text \<open>The allocator never starts an order before the instant it is given.\<close>

lemma scheduleWithShiftsAndBlocks_start:
  assumes "scheduleWithShiftsAndBlocks startIso duration shs blocked = Some (Inr (s, e))"
    and "\<forall>sh\<in>set shs. 0 \<le> endHour sh"
  shows "fromISO startIso \<le> fromISO s"
proof -
  let ?bs = "sortIntervals blocked"
  let ?c0 = "pushOutOfBlocked (fromISO startIso) ?bs"
  let ?st0 = "\<lparr> cursor = ?c0, remaining = duration, scheduledStart = None \<rparr>"
  from assms(1) obtain st where
    run: "allocWhile shs ?bs ?st0 = Some (Inr st)" and
    s: "s = toISO (case scheduledStart st of None \<Rightarrow> fromISO startIso | Some s \<Rightarrow> s)"
    by (auto simp: scheduleWithShiftsAndBlocks_def Let_def split: option.splits sum.splits)
  from allocWhile_advances [OF run assms(2)] have "advances ?st0 st" .
  with pushOutOfBlocked_ge [of "fromISO startIso" ?bs] s show ?thesis
    by (auto simp: advances_def toISO_def split: option.splits)
qed

section \<open>The placement loop\<close>

text \<open>
  The invariant of \<open>for (const id of topoIds)\<close>, relative to the map \<open>wm0\<close> of the cloned
  orders before the loop: the ids placed so far are distinct; every order is its original with,
  at most, new dates, and is its original if it is a maintenance order or not placed yet; every
  placed order that is not a maintenance order starts no earlier than each of its parents ends;
  and the change list holds, in placement order, the record of every placed order whose dates
  differ from the original's.
\<close>

definition sameButDates :: "workOrder \<Rightarrow> workOrder \<Rightarrow> bool" where
  "sameButDates orig w \<longleftrightarrow> w = orig\<lparr>startDate := startDate w, endDate := endDate w\<rparr>"

lemma sameButDates_refl: "sameButDates w w"
  by (simp add: sameButDates_def)

lemma sameButDates_update:
  "sameButDates orig w \<Longrightarrow> sameButDates orig (w\<lparr>startDate := s, endDate := e\<rparr>)"
  by (cases orig; cases w) (simp add: sameButDates_def)

lemma sameButDates_fields:
  "sameButDates orig w \<Longrightarrow>
   docId w = docId orig \<and> isMaintenance w = isMaintenance orig \<and>
   dependsOnWorkOrderIds w = dependsOnWorkOrderIds orig \<and> workOrderNumber w = workOrderNumber orig"
  by (cases orig; cases w) (simp add: sameButDates_def)

text \<open>The change record that the order \<open>n\<close> has earned, given the original and the current map.\<close>

definition changeFor :: "(string \<times> workOrder) list \<Rightarrow> (string \<times> workOrder) list \<Rightarrow> string \<Rightarrow> change list" where
  "changeFor wm0 wm n =
     (case map_of wm0 n of
        None \<Rightarrow> []
      | Some orig \<Rightarrow>
          (case map_of wm n of
             None \<Rightarrow> []
           | Some w \<Rightarrow>
               if startDate orig \<noteq> startDate w \<or> endDate orig \<noteq> endDate w
               then [mkChange w (startDate orig) (endDate orig)] else []))"

definition framed :: "(string \<times> workOrder) list \<Rightarrow> placement \<Rightarrow> bool" where
  "framed wm0 st \<longleftrightarrow>
     (\<forall>k. case map_of wm0 k of
            None \<Rightarrow> map_of (woMap st) k = None
          | Some orig \<Rightarrow>
              (\<exists>w. map_of (woMap st) k = Some w \<and> sameButDates orig w \<and>
                   (k \<notin> set (scheduled st) \<or> isMaintenance orig \<longrightarrow> w = orig)))"

definition depsOk :: "placement \<Rightarrow> bool" where
  "depsOk st \<longleftrightarrow>
     (\<forall>c \<in> set (scheduled st). \<forall>cw. map_of (woMap st) c = Some cw \<longrightarrow> \<not> isMaintenance cw \<longrightarrow>
        (\<forall>p \<in> set (dependsOnWorkOrderIds cw).
           p \<in> set (scheduled st) \<and>
           (\<exists>pw. map_of (woMap st) p = Some pw \<and> fromISO (endDate pw) \<le> fromISO (startDate cw))))"

definition changesOk :: "(string \<times> workOrder) list \<Rightarrow> placement \<Rightarrow> bool" where
  "changesOk wm0 st \<longleftrightarrow>
     changesAcc st = concat (map (changeFor wm0 (woMap st)) (scheduled st))"

definition placeInv :: "(string \<times> workOrder) list \<Rightarrow> placement \<Rightarrow> bool" where
  "placeInv wm0 st \<longleftrightarrow> distinct (scheduled st) \<and> framed wm0 st \<and> depsOk st \<and> changesOk wm0 st"

lemma latestParentEnd_bounds:
  "latestParentEnd st ps latest = Inr r \<Longrightarrow>
   latest \<le> r \<and> (\<forall>p \<in> set ps. \<exists>pw. scheduledGet st p = Some pw \<and> fromISO (endDate pw) \<le> r)"
proof (induction ps arbitrary: latest)
  case Nil
  then show ?case by simp
next
  case (Cons parentId ps)
  from Cons.prems obtain parent where
    p: "scheduledGet st parentId = Some parent" and
    rest: "latestParentEnd st ps
             (if fromISO (endDate parent) > latest then fromISO (endDate parent) else latest) = Inr r"
    by (auto simp: Let_def split: option.splits)
  from Cons.IH [OF rest] p show ?case by (auto split: if_splits)
qed

lemma earliestStart_bounds:
  assumes "earliestStart st ord = Inr earliest"
  shows "fromISO (startDate ord) \<le> earliest \<and>
    (\<forall>p \<in> set (dependsOnWorkOrderIds ord).
       \<exists>pw. scheduledGet st p = Some pw \<and> fromISO (endDate pw) \<le> earliest)"
proof (cases "dependsOnWorkOrderIds ord = []")
  case True
  with assms show ?thesis by (simp add: earliestStart_def)
next
  case False
  with assms have "latestParentEnd st (dependsOnWorkOrderIds ord) (fromISO (startDate ord)) = Inr earliest"
    by (simp add: earliestStart_def Let_def)
  from latestParentEnd_bounds [OF this] show ?thesis by simp
qed

text \<open>The two ways in which one pass of the placement loop goes on.\<close>

lemma placeOrder_Inr:
  assumes "placeOrder wcMap st n = Some (Inr st')"
  obtains
    (locked) ord wc where
      "map_of (woMap st) n = Some ord" "map_of wcMap (workCenterId ord) = Some wc"
      "isMaintenance ord" "st' = scheduledSet n st"
  | (placed) ord wc earliest s e where
      "map_of (woMap st) n = Some ord" "map_of wcMap (workCenterId ord) = Some wc"
      "\<not> isMaintenance ord" "earliestStart st ord = Inr earliest"
      "scheduleWithShiftsAndBlocks (toISO earliest)
         (durationMinutes ord + (case setupTimeMinutes ord of None \<Rightarrow> 0 | Some m \<Rightarrow> m))
         (shifts wc) (sortIntervals (bookedOf (centerBooked st) (wcDocId wc))) = Some (Inr (s, e))"
      "st' = scheduledSet n
         (st\<lparr> woMap := AList.update n (ord\<lparr>startDate := s, endDate := e\<rparr>) (woMap st),
              centerBooked := AList.update (wcDocId wc)
                (sortIntervals (bookedOf (centerBooked st) (wcDocId wc) @
                   [buildOrderInterval (ord\<lparr>startDate := s, endDate := e\<rparr>)])) (centerBooked st),
              changesAcc := (if startDate ord \<noteq> s \<or> endDate ord \<noteq> e
                             then changesAcc st @
                               [mkChange (ord\<lparr>startDate := s, endDate := e\<rparr>) (startDate ord) (endDate ord)]
                             else changesAcc st) \<rparr>)"
proof -
  from assms obtain ord wc where
    ord: "map_of (woMap st) n = Some ord" and wc: "map_of wcMap (workCenterId ord) = Some wc"
    by (auto simp: placeOrder_def split: option.splits)
  show thesis
  proof (cases "isMaintenance ord")
    case True
    with assms ord wc have "st' = scheduledSet n st" by (simp add: placeOrder_def)
    with ord wc True show thesis by (rule locked)
  next
    case False
    with assms ord wc obtain earliest where ea: "earliestStart st ord = Inr earliest"
      by (auto simp: placeOrder_def Let_def split: sum.splits)
    with assms ord wc False obtain s e where
      sch: "scheduleWithShiftsAndBlocks (toISO earliest)
         (durationMinutes ord + (case setupTimeMinutes ord of None \<Rightarrow> 0 | Some m \<Rightarrow> m))
         (shifts wc) (sortIntervals (bookedOf (centerBooked st) (wcDocId wc))) = Some (Inr (s, e))"
      by (auto simp: placeOrder_def Let_def split: sum.splits option.splits)
    with assms ord wc False ea have "st' = scheduledSet n
         (st\<lparr> woMap := AList.update n (ord\<lparr>startDate := s, endDate := e\<rparr>) (woMap st),
              centerBooked := AList.update (wcDocId wc)
                (sortIntervals (bookedOf (centerBooked st) (wcDocId wc) @
                   [buildOrderInterval (ord\<lparr>startDate := s, endDate := e\<rparr>)])) (centerBooked st),
              changesAcc := (if startDate ord \<noteq> s \<or> endDate ord \<noteq> e
                             then changesAcc st @
                               [mkChange (ord\<lparr>startDate := s, endDate := e\<rparr>) (startDate ord) (endDate ord)]
                             else changesAcc st) \<rparr>)"
      by (simp add: placeOrder_def Let_def)
    with ord wc False ea sch show thesis by (rule placed)
  qed
qed

lemma scheduledSet_fresh:
  "n \<notin> set (scheduled st) \<Longrightarrow> scheduledSet n st = st\<lparr>scheduled := scheduled st @ [n]\<rparr>"
  by (simp add: scheduledSet_def)

lemma framedD:
  "framed wm0 st \<Longrightarrow>
   (case map_of wm0 k of
      None \<Rightarrow> map_of (woMap st) k = None
    | Some orig \<Rightarrow>
        (\<exists>w. map_of (woMap st) k = Some w \<and> sameButDates orig w \<and>
             (k \<notin> set (scheduled st) \<or> isMaintenance orig \<longrightarrow> w = orig)))"
  unfolding framed_def by (rule spec)

lemma framed_current:
  assumes "framed wm0 st" and "map_of (woMap st) n = Some ord" and "n \<notin> set (scheduled st)"
  shows "map_of wm0 n = Some ord"
proof (cases "map_of wm0 n")
  case None
  with framedD [OF assms(1), of n] have "map_of (woMap st) n = None" by simp
  with assms(2) show ?thesis by simp
next
  case (Some orig)
  with framedD [OF assms(1), of n] assms(2,3) show ?thesis by simp
qed

lemma changeFor_unmoved: "map_of wm0 n = Some ord \<Longrightarrow> map_of wm n = Some ord \<Longrightarrow> changeFor wm0 wm n = []"
  by (simp add: changeFor_def)

lemma changeFor_update_other:
  "k \<noteq> n \<Longrightarrow> changeFor wm0 (AList.update n w wm) k = changeFor wm0 wm k"
  by (simp add: changeFor_def update_conv' split: option.splits)

lemma placeOrder_locked_inv:
  assumes inv: "placeInv wm0 st" and fresh: "n \<notin> set (scheduled st)"
    and cur: "map_of (woMap st) n = Some ord" and maint: "isMaintenance ord"
  shows "placeInv wm0 (st\<lparr>scheduled := scheduled st @ [n]\<rparr>)"
proof -
  let ?st' = "st\<lparr>scheduled := scheduled st @ [n]\<rparr>"
  from inv have d: "distinct (scheduled st)" and f: "framed wm0 st" and dep: "depsOk st"
    and ch: "changesOk wm0 st"
    by (simp_all add: placeInv_def)
  from framed_current [OF f cur fresh] have orig: "map_of wm0 n = Some ord" .
  have "distinct (scheduled ?st')" using d fresh by simp
  moreover have "framed wm0 ?st'"
    unfolding framed_def
  proof
    fix k
    show "case map_of wm0 k of None \<Rightarrow> map_of (woMap ?st') k = None
        | Some orig \<Rightarrow> \<exists>w. map_of (woMap ?st') k = Some w \<and> sameButDates orig w \<and>
            (k \<notin> set (scheduled ?st') \<or> isMaintenance orig \<longrightarrow> w = orig)"
    proof (cases "k = n")
      case True
      with orig cur show ?thesis by (simp add: sameButDates_refl)
    next
      case False
      with framedD [OF f, of k] show ?thesis
        by (cases "map_of wm0 k") simp_all
    qed
  qed
  moreover have "depsOk ?st'"
    unfolding depsOk_def
  proof (intro ballI allI impI)
    fix c cw p
    assume c: "c \<in> set (scheduled ?st')" and cw: "map_of (woMap ?st') c = Some cw"
      and nm: "\<not> isMaintenance cw" and p: "p \<in> set (dependsOnWorkOrderIds cw)"
    from cw cur maint nm have "c \<noteq> n" by auto
    with c have "c \<in> set (scheduled st)" by simp
    with dep cw nm p have "p \<in> set (scheduled st) \<and>
        (\<exists>pw. map_of (woMap st) p = Some pw \<and> fromISO (endDate pw) \<le> fromISO (startDate cw))"
      unfolding depsOk_def by simp
    then show "p \<in> set (scheduled ?st') \<and>
        (\<exists>pw. map_of (woMap ?st') p = Some pw \<and> fromISO (endDate pw) \<le> fromISO (startDate cw))"
      by simp
  qed
  moreover have "changesOk wm0 ?st'"
    using ch changeFor_unmoved [OF orig cur] by (simp add: changesOk_def)
  ultimately show ?thesis by (simp add: placeInv_def)
qed

lemma placeOrder_placed_inv:
  assumes inv: "placeInv wm0 st" and fresh: "n \<notin> set (scheduled st)"
    and cur: "map_of (woMap st) n = Some ord" and nm: "\<not> isMaintenance ord"
    and parents: "\<forall>p \<in> set (dependsOnWorkOrderIds ord).
        \<exists>pw. scheduledGet st p = Some pw \<and> fromISO (endDate pw) \<le> fromISO s"
  shows "placeInv wm0
     (st\<lparr> woMap := AList.update n (ord\<lparr>startDate := s, endDate := e\<rparr>) (woMap st),
          centerBooked := cb,
          changesAcc := (if startDate ord \<noteq> s \<or> endDate ord \<noteq> e
                         then changesAcc st @
                           [mkChange (ord\<lparr>startDate := s, endDate := e\<rparr>) (startDate ord) (endDate ord)]
                         else changesAcc st),
          scheduled := scheduled st @ [n] \<rparr>)"
    (is "placeInv wm0 ?st'")
proof -
  let ?ord' = "ord\<lparr>startDate := s, endDate := e\<rparr>"
  let ?wm' = "AList.update n ?ord' (woMap st)"
  from inv have d: "distinct (scheduled st)" and f: "framed wm0 st" and dep: "depsOk st"
    and ch: "changesOk wm0 st"
    by (simp_all add: placeInv_def)
  from framed_current [OF f cur fresh] have orig: "map_of wm0 n = Some ord" .
  have wm': "map_of ?wm' k = (if k = n then Some ?ord' else map_of (woMap st) k)" for k
    by (simp add: update_conv')
  have "distinct (scheduled ?st')" using d fresh by simp
  moreover have "framed wm0 ?st'"
    unfolding framed_def
  proof
    fix k
    show "case map_of wm0 k of None \<Rightarrow> map_of (woMap ?st') k = None
        | Some orig \<Rightarrow> \<exists>w. map_of (woMap ?st') k = Some w \<and> sameButDates orig w \<and>
            (k \<notin> set (scheduled ?st') \<or> isMaintenance orig \<longrightarrow> w = orig)"
    proof (cases "k = n")
      case True
      with orig nm sameButDates_update [OF sameButDates_refl, where s = s and e = e] show ?thesis
        by (simp add: wm')
    next
      case False
      with framedD [OF f, of k] show ?thesis
        by (cases "map_of wm0 k") (simp_all add: wm')
    qed
  qed
  moreover have "depsOk ?st'"
    unfolding depsOk_def
  proof (intro ballI allI impI)
    fix c cw p
    assume c: "c \<in> set (scheduled ?st')" and cw: "map_of (woMap ?st') c = Some cw"
      and cnm: "\<not> isMaintenance cw" and p: "p \<in> set (dependsOnWorkOrderIds cw)"
    have "p \<in> set (scheduled st) \<and>
        (\<exists>pw. map_of (woMap st) p = Some pw \<and> fromISO (endDate pw) \<le> fromISO (startDate cw))"
    proof (cases "c = n")
      case True
      with cw have cw': "cw = ?ord'" by (simp add: wm')
      with p parents obtain pw where
        "scheduledGet st p = Some pw" "fromISO (endDate pw) \<le> fromISO s"
        by auto
      with cw' show ?thesis by (auto simp: scheduledGet_def split: if_splits)
    next
      case False
      with c cw have "c \<in> set (scheduled st)" "map_of (woMap st) c = Some cw"
        by (simp_all add: wm')
      with dep cnm p show ?thesis unfolding depsOk_def by simp
    qed
    then obtain pw where ps: "p \<in> set (scheduled st)" and pw: "map_of (woMap st) p = Some pw"
      and le: "fromISO (endDate pw) \<le> fromISO (startDate cw)" by blast
    from ps fresh have "p \<noteq> n" by auto
    with ps pw le show "p \<in> set (scheduled ?st') \<and>
        (\<exists>pw. map_of (woMap ?st') p = Some pw \<and> fromISO (endDate pw) \<le> fromISO (startDate cw))"
      by (simp add: wm')
  qed
  moreover have "changesOk wm0 ?st'"
  proof -
    have m: "map (changeFor wm0 ?wm') (scheduled st) = map (changeFor wm0 (woMap st)) (scheduled st)"
      using fresh by (intro map_cong refl changeFor_update_other) auto
    have one: "changeFor wm0 ?wm' n =
        (if startDate ord \<noteq> s \<or> endDate ord \<noteq> e
         then [mkChange ?ord' (startDate ord) (endDate ord)] else [])"
      using orig by (simp add: changeFor_def wm')
    have "concat (map (changeFor wm0 ?wm') (scheduled st @ [n])) =
        concat (map (changeFor wm0 (woMap st)) (scheduled st)) @ changeFor wm0 ?wm' n"
      unfolding map_append concat_append m by simp
    also have "\<dots> = changesAcc st @ changeFor wm0 ?wm' n"
      using ch by (simp add: changesOk_def)
    finally show ?thesis
      unfolding one by (simp add: changesOk_def)
  qed
  ultimately show ?thesis by (simp add: placeInv_def)
qed

definition validCenters :: "(string \<times> workCenter) list \<Rightarrow> bool" where
  "validCenters wcMap \<longleftrightarrow>
     (\<forall>k wc. map_of wcMap k = Some wc \<longrightarrow> (\<forall>s \<in> set (shifts wc). 0 \<le> endHour s))"

lemma placeOrder_step:
  assumes run: "placeOrder wcMap st n = Some (Inr st')"
    and fresh: "n \<notin> set (scheduled st)"
    and inv: "placeInv wm0 st"
    and valid: "validCenters wcMap"
  shows "placeInv wm0 st' \<and> scheduled st' = scheduled st @ [n]"
  using run
proof (cases rule: placeOrder_Inr)
  case (locked ord wc)
  from locked(4) fresh have st': "st' = st\<lparr>scheduled := scheduled st @ [n]\<rparr>"
    by (simp add: scheduledSet_fresh)
  with placeOrder_locked_inv [OF inv fresh locked(1,3)] show ?thesis by simp
next
  case (placed ord wc earliest s e)
  from valid placed(2) have "\<forall>sh \<in> set (shifts wc). 0 \<le> endHour sh"
    unfolding validCenters_def by blast
  from scheduleWithShiftsAndBlocks_start [OF placed(5) this] have "earliest \<le> fromISO s"
    by (simp add: toISO_def)
  have parents: "\<forall>p \<in> set (dependsOnWorkOrderIds ord).
        \<exists>pw. scheduledGet st p = Some pw \<and> fromISO (endDate pw) \<le> fromISO s"
  proof
    fix p assume "p \<in> set (dependsOnWorkOrderIds ord)"
    with earliestStart_bounds [OF placed(4)] obtain pw where
      "scheduledGet st p = Some pw" "fromISO (endDate pw) \<le> earliest" by blast
    with \<open>earliest \<le> fromISO s\<close> show "\<exists>pw. scheduledGet st p = Some pw \<and> fromISO (endDate pw) \<le> fromISO s"
      by (intro exI [of _ pw]) simp
  qed
  from placed(6) fresh have st': "st' =
     st\<lparr> woMap := AList.update n (ord\<lparr>startDate := s, endDate := e\<rparr>) (woMap st),
          centerBooked := AList.update (wcDocId wc)
                (sortIntervals (bookedOf (centerBooked st) (wcDocId wc) @
                   [buildOrderInterval (ord\<lparr>startDate := s, endDate := e\<rparr>)])) (centerBooked st),
          changesAcc := (if startDate ord \<noteq> s \<or> endDate ord \<noteq> e
                         then changesAcc st @
                           [mkChange (ord\<lparr>startDate := s, endDate := e\<rparr>) (startDate ord) (endDate ord)]
                         else changesAcc st),
          scheduled := scheduled st @ [n] \<rparr>"
    by (simp add: scheduledSet_def)
  from placeOrder_placed_inv [OF inv fresh placed(1,3) parents] st' show ?thesis by simp
qed

lemma placeAll_inv:
  "placeAll wcMap ns st = Some (Inr st') \<Longrightarrow> distinct ns \<Longrightarrow> set ns \<inter> set (scheduled st) = {} \<Longrightarrow>
   placeInv wm0 st \<Longrightarrow> validCenters wcMap \<Longrightarrow>
   placeInv wm0 st' \<and> scheduled st' = scheduled st @ ns"
proof (induction ns arbitrary: st)
  case Nil
  then show ?case by simp
next
  case (Cons n ns)
  from Cons.prems(1) obtain st1 where
    one: "placeOrder wcMap st n = Some (Inr st1)" and rest: "placeAll wcMap ns st1 = Some (Inr st')"
    by (auto split: option.splits sum.splits)
  from Cons.prems(3) have fresh: "n \<notin> set (scheduled st)" by auto
  from placeOrder_step [OF one fresh Cons.prems(4,5)]
  have inv1: "placeInv wm0 st1" and s1: "scheduled st1 = scheduled st @ [n]" by simp_all
  from Cons.prems(2,3) s1 have "distinct ns" "set ns \<inter> set (scheduled st1) = {}" by auto
  from Cons.IH [OF rest this inv1 Cons.prems(5)] s1 show ?case by simp
qed

lemma update_append_fresh:
  "k \<notin> fst ` set al \<Longrightarrow> AList.update k v al = al @ [(k, v)]"
  by (induction al) auto

lemma fold_update_distinct_entries:
  "distinct (map fst (acc @ es)) \<Longrightarrow> fold (\<lambda>(k, v) m. AList.update k v m) es acc = acc @ es"
proof (induction es arbitrary: acc)
  case Nil
  then show ?case by simp
next
  case (Cons kv es)
  obtain k v where kv: "kv = (k, v)" by (cases kv)
  from Cons.prems kv have "k \<notin> fst ` set acc" by auto
  then have u: "AList.update k v acc = acc @ [(k, v)]" by (rule update_append_fresh)
  from Cons.prems kv have "distinct (map fst ((acc @ [(k, v)]) @ es))" by simp
  from Cons.IH [OF this] kv u show ?case by simp
qed

lemma mapOfEntries_distinct: "distinct (map fst es) \<Longrightarrow> mapOfEntries es = es"
  using fold_update_distinct_entries [of "[]" es] by (simp add: mapOfEntries_def)

lemma fold_update_entries_mem:
  "map_of (fold (\<lambda>(k, v) m. AList.update k v m) es acc) k = Some v \<Longrightarrow>
   (k, v) \<in> set es \<or> map_of acc k = Some v"
proof (induction es arbitrary: acc)
  case Nil
  then show ?case by simp
next
  case (Cons kv es)
  obtain k' v' where kv: "kv = (k', v')" by (cases kv)
  with Cons.prems have "map_of (fold (\<lambda>(k, v) m. AList.update k v m) es (AList.update k' v' acc)) k = Some v"
    by simp
  from Cons.IH [OF this] kv show ?case
    by (auto simp: update_conv' split: if_splits)
qed

lemma mapOfEntries_mem: "map_of (mapOfEntries es) k = Some v \<Longrightarrow> (k, v) \<in> set es"
  using fold_update_entries_mem [of es "[]" k v] by (simp add: mapOfEntries_def)

lemma map_of_docId_find:
  "map_of (map (\<lambda>w. (docId w, w)) wos) n = find (\<lambda>orig. docId orig = n) wos"
  by (induction wos) auto

lemma map_of_docId_key: "map_of (map (\<lambda>w. (docId w, w)) wos) n = Some w \<Longrightarrow> docId w = n \<and> w \<in> set wos"
  by (auto dest: map_of_SomeD)

lemma map_of_docId_distinct:
  "distinct (map docId wos) \<Longrightarrow> w \<in> set wos \<Longrightarrow> map_of (map (\<lambda>w. (docId w, w)) wos) (docId w) = Some w"
  by (induction wos) (auto simp: rev_image_eqI)

lemma validInput_centers:
  assumes "validInput input"
  shows "validCenters (mapOfEntries (map (\<lambda>w. (wcDocId w, w)) (workCenters input)))"
  unfolding validCenters_def
proof (intro allI impI ballI)
  fix k wc s
  assume "map_of (mapOfEntries (map (\<lambda>w. (wcDocId w, w)) (workCenters input))) k = Some wc"
    and s: "s \<in> set (shifts wc)"
  from mapOfEntries_mem [OF this(1)] have "wc \<in> set (workCenters input)" by auto
  with assms s have "validShift s" by (auto simp: validInput_def list_all_iff)
  then show "0 \<le> endHour s" by (simp add: validShift_def)
qed

lemma topoSortWorkOrders_all:
  assumes "topoSortWorkOrders wos = Inr ids" and "distinct (map docId wos)"
  shows "distinct ids \<and> set ids = docId ` set wos"
proof -
  from topoSortWorkOrders_distinct [OF assms(1)] have d: "distinct ids"
    and sub: "set ids \<subseteq> docId ` set wos" and len: "length ids = length wos" by simp_all
  from d have "card (set ids) = length ids" by (rule distinct_card)
  moreover from assms(2) have "card (docId ` set wos) = length wos"
    using distinct_card [of "map docId wos"] by simp
  ultimately have "card (set ids) = card (docId ` set wos)" using len by simp
  with sub have "set ids = docId ` set wos" by (intro card_subset_eq) simp_all
  with d show ?thesis by simp
qed

lemma placeInv_initial:
  "placeInv wm0 \<lparr> woMap = wm0, centerBooked = cb, changesAcc = [], scheduled = [] \<rparr>"
proof -
  have "framed wm0 \<lparr> woMap = wm0, centerBooked = cb, changesAcc = [], scheduled = [] \<rparr>"
    unfolding framed_def by (auto simp: sameButDates_refl split: option.splits)
  then show ?thesis by (simp add: placeInv_def depsOk_def changesOk_def)
qed

text \<open>What a returned result rests on.\<close>

lemma reflow_Inr:
  assumes run: "reflow input = Some (Inr res)" and valid: "validInput input"
  obtains topoIds st0 st where
    "distinct topoIds" "set topoIds = docId ` set (workOrders input)"
    "initialPlacement input = Inr st0"
    "placeInv (map (\<lambda>w. (docId w, w)) (workOrders input)) st" "scheduled st = topoIds"
    "updatedWorkOrders res = List.map_filter (scheduledGet st) topoIds"
    "changes res = changesAcc st"
proof -
  let ?wm0 = "map (\<lambda>w. (docId w, w)) (workOrders input)"
  let ?wcMap = "mapOfEntries (map (\<lambda>w. (wcDocId w, w)) (workCenters input))"
  from valid have "distinct (map fst ?wm0)" by (simp add: validInput_def comp_def)
  then have wm: "mapOfEntries ?wm0 = ?wm0" by (rule mapOfEntries_distinct)
  have snd: "map snd ?wm0 = workOrders input" by (simp add: comp_def)
  from run have "(case topoSortWorkOrders (workOrders input) of
           Inl e \<Rightarrow> Some (Inl e)
         | Inr topoIds \<Rightarrow>
      (case initialPlacement input of
           Inl e \<Rightarrow> Some (Inl e)
         | Inr st0 \<Rightarrow>
      (case placeAll ?wcMap topoIds st0 of
           None \<Rightarrow> None
         | Some (Inl e) \<Rightarrow> Some (Inl e)
         | Some (Inr st) \<Rightarrow>
             Some (Inr \<lparr> updatedWorkOrders = List.map_filter (scheduledGet st) topoIds,
                         changes = changesAcc st,
                         totalDelayMinutes = fold (\<lambda>c sum. sum + max 0 (deltaMinutes c)) (changesAcc st) 0,
                         movedCount = length (changesAcc st) \<rparr>)))) = Some (Inr res)"
    unfolding reflow_def Let_def wm snd .
  then obtain topoIds st0 st where
    topo: "topoSortWorkOrders (workOrders input) = Inr topoIds" and
    init: "initialPlacement input = Inr st0" and
    place: "placeAll ?wcMap topoIds st0 = Some (Inr st)" and
    res: "res = \<lparr> updatedWorkOrders = List.map_filter (scheduledGet st) topoIds,
                   changes = changesAcc st,
                   totalDelayMinutes = fold (\<lambda>c sum. sum + max 0 (deltaMinutes c)) (changesAcc st) 0,
                   movedCount = length (changesAcc st) \<rparr>"
    by (auto split: sum.splits option.splits)
  from valid have "distinct (map docId (workOrders input))" by (simp add: validInput_def)
  from topoSortWorkOrders_all [OF topo this]
  have d: "distinct topoIds" and all: "set topoIds = docId ` set (workOrders input)" by simp_all
  from init obtain cb where st0: "st0 = \<lparr> woMap = ?wm0, centerBooked = cb, changesAcc = [], scheduled = [] \<rparr>"
    by (auto simp: initialPlacement_def Let_def wm split: sum.splits)
  have "placeInv ?wm0 st0" unfolding st0 by (rule placeInv_initial)
  from placeAll_inv [OF place d _ this validInput_centers [OF valid]] st0
  have "placeInv ?wm0 st" "scheduled st = topoIds" by simp_all
  with d all init res show thesis by (intro that) simp_all
qed

section \<open>Dependencies, change records and maintenance orders\<close>

lemma map_filter_all_Some:
  "\<forall>x \<in> set xs. \<exists>y. f x = Some y \<Longrightarrow> List.map_filter f xs = map (\<lambda>x. the (f x)) xs"
  by (induction xs) (auto simp: List.map_filter_simps)

text \<open>The final state holds, for every id placed, the original order with new dates.\<close>

lemma framed_final:
  assumes f: "framed (map (\<lambda>w. (docId w, w)) wos) st" and n: "n \<in> docId ` set wos"
  obtains orig w where
    "map_of (map (\<lambda>w. (docId w, w)) wos) n = Some orig" "orig \<in> set wos" "docId orig = n"
    "map_of (woMap st) n = Some w" "sameButDates orig w" "docId w = n"
    "isMaintenance orig \<longrightarrow> w = orig"
proof -
  let ?wm0 = "map (\<lambda>w. (docId w, w)) wos"
  have "fst ` set ?wm0 = docId ` set wos" by force
  with n have "map_of ?wm0 n \<noteq> None" by (simp add: map_of_eq_None_iff)
  then obtain orig where o: "map_of ?wm0 n = Some orig" by blast
  from map_of_docId_key [OF o] have k: "docId orig = n" "orig \<in> set wos" by simp_all
  from framedD [OF f, of n] o obtain w where
    w: "map_of (woMap st) n = Some w" "sameButDates orig w"
       "n \<notin> set (scheduled st) \<or> isMaintenance orig \<longrightarrow> w = orig"
    by auto
  from sameButDates_fields [OF w(2)] k have "docId w = n" by simp
  with o k w show thesis by (intro that [of orig w]) simp_all
qed

lemma updated_final:
  assumes f: "framed (map (\<lambda>w. (docId w, w)) wos) st" and all: "set (scheduled st) = docId ` set wos"
  shows "List.map_filter (scheduledGet st) (scheduled st) =
         map (\<lambda>n. the (map_of (woMap st) n)) (scheduled st)"
proof -
  have "\<exists>y. scheduledGet st n = Some y" if "n \<in> set (scheduled st)" for n
  proof -
    from that all have "n \<in> docId ` set wos" by simp
    from framed_final [OF f this] obtain w where "map_of (woMap st) n = Some w" by blast
    with that show ?thesis by (simp add: scheduledGet_def)
  qed
  then have "List.map_filter (scheduledGet st) (scheduled st) =
      map (\<lambda>n. the (scheduledGet st n)) (scheduled st)"
    by (intro map_filter_all_Some) blast
  also have "\<dots> = map (\<lambda>n. the (map_of (woMap st) n)) (scheduled st)"
    by (intro map_cong refl) (simp add: scheduledGet_def)
  finally show ?thesis .
qed

lemma updated_mem:
  assumes f: "framed (map (\<lambda>w. (docId w, w)) wos) st" and all: "set (scheduled st) = docId ` set wos"
  shows "w \<in> set (List.map_filter (scheduledGet st) (scheduled st)) \<longleftrightarrow>
         (\<exists>n \<in> set (scheduled st). map_of (woMap st) n = Some w)"
proof -
  have "the (map_of (woMap st) n) = w \<longleftrightarrow> map_of (woMap st) n = Some w"
    if "n \<in> set (scheduled st)" for n
  proof -
    from that all have "n \<in> docId ` set wos" by simp
    from framed_final [OF f this] obtain w' where "map_of (woMap st) n = Some w'" by blast
    then show ?thesis by simp
  qed
  then show ?thesis
    unfolding updated_final [OF f all] by (auto simp: image_iff)
qed

text \<open>
  Claim C4, as the code has it. For every valid input on which \<open>reflow\<close> returns a result,
  every updated order \<open>c\<close> that is not a maintenance order, and every id \<open>p\<close> in
  \<open>c.dependsOnWorkOrderIds\<close>: the updated order with id \<open>p\<close> ends no later than \<open>c\<close> starts,
  whatever the work centers of the two.
\<close>

theorem dependencies_respected:
  assumes run: "reflow input = Some (Inr res)" and valid: "validInput input"
    and c: "c \<in> set (updatedWorkOrders res)" and nm: "\<not> isMaintenance c"
    and p: "p \<in> set (dependsOnWorkOrderIds c)"
  shows "\<exists>pw \<in> set (updatedWorkOrders res). docId pw = p \<and> fromISO (endDate pw) \<le> fromISO (startDate c)"
  using run valid
proof (cases rule: reflow_Inr)
  case (1 topoIds st0 st)
  let ?wos = "workOrders input"
  from 1(4) have f: "framed (map (\<lambda>w. (docId w, w)) ?wos) st" and dep: "depsOk st"
    by (simp_all add: placeInv_def)
  from 1(2,5) have all: "set (scheduled st) = docId ` set ?wos" by simp
  note mem = updated_mem [OF f all]
  from c 1(5,6) mem obtain n where n: "n \<in> set (scheduled st)" "map_of (woMap st) n = Some c"
    by auto
  with dep nm p obtain pw where ps: "p \<in> set (scheduled st)" and
    pw: "map_of (woMap st) p = Some pw" "fromISO (endDate pw) \<le> fromISO (startDate c)"
    unfolding depsOk_def by blast
  from ps all have "p \<in> docId ` set ?wos" by simp
  from framed_final [OF f this] obtain pw' where "map_of (woMap st) p = Some pw'" "docId pw' = p"
    by blast
  with pw(1) have "docId pw = p" by simp
  moreover from ps pw(1) mem 1(5,6) have "pw \<in> set (updatedWorkOrders res)" by auto
  ultimately show ?thesis using pw(2) by blast
qed

lemma changeFor_changeOf:
  assumes "map_of (woMap st) n = Some w" "docId w = n"
  shows "changeFor (map (\<lambda>w. (docId w, w)) (workOrders input)) (woMap st) n = changeOf input w"
  using assms by (simp add: changeFor_def changeOf_def originalOf_def map_of_docId_find split: option.splits)

text \<open>
  Claim C8. For every valid input on which \<open>reflow\<close> returns a result: the change list is,
  in the order of the updated orders (the placement order), one record for every updated order
  whose start or end string differs from its original's and none for the others; every id of
  the input occurs exactly once among the updated orders; and every record's \<open>deltaMinutes\<close> is
  the floor of the minutes from the old end to the new end.
\<close>

theorem changes_exact:
  assumes run: "reflow input = Some (Inr res)" and valid: "validInput input"
  shows "changes res = concat (map (changeOf input) (updatedWorkOrders res))
    \<and> distinct (map docId (updatedWorkOrders res))
    \<and> docId ` set (updatedWorkOrders res) = docId ` set (workOrders input)
    \<and> (\<forall>ch \<in> set (changes res).
         deltaMinutes ch = (fromISO (newEnd ch) - fromISO (oldEnd ch)) div msPerMinute)"
  using run valid
proof (cases rule: reflow_Inr)
  case (1 topoIds st0 st)
  let ?wos = "workOrders input"
  let ?wm0 = "map (\<lambda>w. (docId w, w)) ?wos"
  let ?final = "\<lambda>n. the (map_of (woMap st) n)"
  from 1(4) have f: "framed ?wm0 st" and ch: "changesOk ?wm0 st"
    by (simp_all add: placeInv_def)
  from 1(2,5) have all: "set (scheduled st) = docId ` set ?wos" by simp
  from 1(5,6) updated_final [OF f all] have upd: "updatedWorkOrders res = map ?final topoIds"
    by simp
  have final: "map_of (woMap st) n = Some (?final n) \<and> docId (?final n) = n" if "n \<in> set topoIds" for n
  proof -
    from that 1(2) have "n \<in> docId ` set ?wos" by simp
    from framed_final [OF f this] obtain w where "map_of (woMap st) n = Some w" "docId w = n"
      by blast
    then show ?thesis by simp
  qed
  have ids: "map docId (updatedWorkOrders res) = topoIds"
    unfolding upd using final by (simp add: map_idI)
  have "changes res = concat (map (changeFor ?wm0 (woMap st)) topoIds)"
    using ch 1(5,7) by (simp add: changesOk_def)
  also have "map (changeFor ?wm0 (woMap st)) topoIds = map (\<lambda>n. changeOf input (?final n)) topoIds"
    using final by (intro map_cong refl changeFor_changeOf) simp_all
  also have "\<dots> = map (changeOf input) (updatedWorkOrders res)"
    unfolding upd by (simp add: comp_def)
  finally have c1: "changes res = concat (map (changeOf input) (updatedWorkOrders res))" .
  have c4: "\<forall>ch \<in> set (changes res).
         deltaMinutes ch = (fromISO (newEnd ch) - fromISO (oldEnd ch)) div msPerMinute"
    unfolding c1 by (auto simp: changeOf_def mkChange_def split: option.splits if_splits)
  from ids 1(1) have c2: "distinct (map docId (updatedWorkOrders res))" by simp
  from ids 1(2) have c3: "docId ` set (updatedWorkOrders res) = docId ` set ?wos"
    by (metis list.set_map)
  from c1 c2 c3 c4 show ?thesis by blast
qed

lemma lockMaintenance_grows:
  "lockMaintenance wos cb = Inr cb' \<Longrightarrow> iv \<in> set (bookedOf cb k) \<Longrightarrow> iv \<in> set (bookedOf cb' k)"
proof (induction wos arbitrary: cb)
  case Nil
  then show ?case by simp
next
  case (Cons w wos)
  show ?case
  proof (cases "isMaintenance w")
    case False
    with Cons.prems(1) have "lockMaintenance wos cb = Inr cb'" by simp
    from Cons.IH [OF this Cons.prems(2)] show ?thesis .
  next
    case True
    with Cons.prems(1) obtain booked where b: "map_of cb (workCenterId w) = Some booked"
      by (auto split: option.splits)
    let ?cb1 = "AList.update (workCenterId w) (sortIntervals (booked @ [buildOrderInterval w])) cb"
    from Cons.prems(1) True b have rest: "lockMaintenance wos ?cb1 = Inr cb'" by simp
    from Cons.prems(2) b have "iv \<in> set (bookedOf ?cb1 k)"
      by (cases "k = workCenterId w") (simp_all add: bookedOf_def update_conv' sortIntervals_def)
    from Cons.IH [OF rest this] show ?thesis .
  qed
qed

lemma lockMaintenance_books:
  "lockMaintenance wos cb = Inr cb' \<Longrightarrow> w \<in> set wos \<Longrightarrow> isMaintenance w \<Longrightarrow>
   buildOrderInterval w \<in> set (bookedOf cb' (workCenterId w))"
proof (induction wos arbitrary: cb)
  case Nil
  then show ?case by simp
next
  case (Cons x wos)
  show ?case
  proof (cases "isMaintenance x")
    case False
    with Cons.prems(1) have rest: "lockMaintenance wos cb = Inr cb'" by simp
    from False Cons.prems(2,3) have "w \<in> set wos" by auto
    from Cons.IH [OF rest this Cons.prems(3)] show ?thesis .
  next
    case True
    with Cons.prems(1) obtain booked where b: "map_of cb (workCenterId x) = Some booked"
      by (auto split: option.splits)
    let ?cb1 = "AList.update (workCenterId x) (sortIntervals (booked @ [buildOrderInterval x])) cb"
    from Cons.prems(1) True b have rest: "lockMaintenance wos ?cb1 = Inr cb'" by simp
    show ?thesis
    proof (cases "w = x")
      case True
      have "buildOrderInterval x \<in> set (bookedOf ?cb1 (workCenterId x))"
        by (simp add: bookedOf_def update_conv' sortIntervals_def)
      from lockMaintenance_grows [OF rest this] True show ?thesis by simp
    next
      case False
      with Cons.prems(2) have "w \<in> set wos" by simp
      from Cons.IH [OF rest this Cons.prems(3)] show ?thesis .
    qed
  qed
qed

text \<open>
  Claim C5. For every valid input on which \<open>reflow\<close> returns a result and every work order
  \<open>m\<close> of the input with \<open>isMaintenance\<close>: \<open>m\<close> is among the updated orders as it was given, no
  other updated order has its id, no change record names it, and its span is in the bookings of
  its center in the state in which the placement loop starts.
\<close>

theorem maintenance_pinned:
  assumes run: "reflow input = Some (Inr res)" and valid: "validInput input"
    and m: "m \<in> set (workOrders input)" and maint: "isMaintenance m"
  shows "m \<in> set (updatedWorkOrders res)
    \<and> (\<forall>w \<in> set (updatedWorkOrders res). docId w = docId m \<longrightarrow> w = m)
    \<and> (\<forall>ch \<in> set (changes res). workOrderId ch \<noteq> docId m)
    \<and> (\<exists>st0. initialPlacement input = Inr st0 \<and>
          buildOrderInterval m \<in> set (bookedOf (centerBooked st0) (workCenterId m)))"
  using run valid
proof (cases rule: reflow_Inr)
  case (1 topoIds st0 st)
  let ?wos = "workOrders input"
  let ?wm0 = "map (\<lambda>w. (docId w, w)) ?wos"
  from valid have d: "distinct (map docId ?wos)" by (simp add: validInput_def)
  from 1(4) have f: "framed ?wm0 st" and ch: "changesOk ?wm0 st"
    by (simp_all add: placeInv_def)
  from 1(2,5) have all: "set (scheduled st) = docId ` set ?wos" by simp
  note mem = updated_mem [OF f all]
  from map_of_docId_distinct [OF d m] have orig: "map_of ?wm0 (docId m) = Some m" .
  from m have mk: "docId m \<in> docId ` set ?wos" by simp
  from framed_final [OF f mk] obtain orig0 w0 where
    "map_of ?wm0 (docId m) = Some orig0" "map_of (woMap st) (docId m) = Some w0"
    "isMaintenance orig0 \<longrightarrow> w0 = orig0"
    by blast
  with orig maint have fin: "map_of (woMap st) (docId m) = Some m"
    by simp
  have a: "m \<in> set (updatedWorkOrders res)"
    using mem [of m] fin mk all 1(5,6) by auto
  have b: "\<forall>w \<in> set (updatedWorkOrders res). docId w = docId m \<longrightarrow> w = m"
  proof (intro ballI impI)
    fix w assume "w \<in> set (updatedWorkOrders res)" and same: "docId w = docId m"
    with mem [of w] 1(5,6) obtain n where n: "n \<in> set (scheduled st)" "map_of (woMap st) n = Some w"
      by auto
    from n(1) all have "n \<in> docId ` set ?wos" by simp
    from framed_final [OF f this] obtain w' where "map_of (woMap st) n = Some w'" "docId w' = n"
      by blast
    with n(2) have "docId w = n" by simp
    with same have "n = docId m" by simp
    with n(2) have "map_of (woMap st) (docId m) = Some w" by simp
    with fin show "w = m" by simp
  qed
  have c: "\<forall>ch \<in> set (changes res). workOrderId ch \<noteq> docId m"
  proof
    fix c assume "c \<in> set (changes res)"
    with ch 1(5,7) obtain n where n: "n \<in> set topoIds" "c \<in> set (changeFor ?wm0 (woMap st) n)"
      by (auto simp: changesOk_def)
    from n(1) 1(2) have "n \<in> docId ` set ?wos" by simp
    from framed_final [OF f this] obtain orig' w where
      o: "map_of ?wm0 n = Some orig'" "map_of (woMap st) n = Some w" "docId w = n"
      by blast
    show "workOrderId c \<noteq> docId m"
    proof
      assume eq: "workOrderId c = docId m"
      from n(2) o have "workOrderId c = n"
        by (auto simp: changeFor_def mkChange_def split: if_splits)
      with eq o orig fin n(2) show False
        by (simp add: changeFor_def)
    qed
  qed
  from 1(3) obtain cb where
    lock: "lockMaintenance ?wos (seedBooked (workCenters input)) = Inr cb" and
    st0: "centerBooked st0 = cb"
    using mapOfEntries_distinct [of ?wm0] d
    by (auto simp: initialPlacement_def Let_def comp_def split: sum.splits)
  from lockMaintenance_books [OF lock m maint] st0
  have "buildOrderInterval m \<in> set (bookedOf (centerBooked st0) (workCenterId m))" by simp
  with 1(3) a b c show ?thesis by blast
qed

text \<open>In the delay cascade, \<open>B\<close> depends on \<open>A\<close> and starts at 14:00, when \<open>A\<close> ends.\<close>

theorem dependencies_respected_witness:
  "\<exists>pw \<in> set (updatedWorkOrders (resultOf scenario1_delayCascade)).
     docId pw = ''A'' \<and> fromISO (endDate pw) \<le> utc 2026 3 2 14 0"
proof -
  let ?b = "(wo ''B'' ''wc1'' (lit 2026 3 2 10 0) (lit 2026 3 2 12 0) (2 * 60) False [''A''])
      \<lparr> startDate := toISO (utc 2026 3 2 14 0), endDate := toISO (utc 2026 3 2 16 0) \<rparr>"
  have run: "reflow scenario1_delayCascade = Some (Inr (resultOf scenario1_delayCascade))"
    by code_simp
  have valid: "validInput scenario1_delayCascade"
    by code_simp
  have c: "?b \<in> set (updatedWorkOrders (resultOf scenario1_delayCascade))"
    by code_simp
  have nm: "\<not> isMaintenance ?b"
    by (simp add: wo_def)
  have p: "''A'' \<in> set (dependsOnWorkOrderIds ?b)"
    by (simp add: wo_def)
  have s: "fromISO (startDate ?b) = utc 2026 3 2 14 0"
    by (simp add: toISO_def)
  from dependencies_respected [OF run valid c nm p] show ?thesis
    unfolding s .
qed

text \<open>One hour of work in a four-hour slot: the end moves three hours earlier, and the
  record's \<open>deltaMinutes\<close> is negative.\<close>

theorem changes_exact_witness:
  "changes (resultOf earlyFinish) =
     [\<lparr> workOrderId = ''X'', chWorkOrderNumber = ''X'',
        oldStart = lit 2026 3 2 8 0, newStart = toISO (utc 2026 3 2 8 0),
        oldEnd = lit 2026 3 2 12 0, newEnd = toISO (utc 2026 3 2 9 0),
        deltaMinutes = - 180 \<rparr>]"
proof -
  have run: "reflow earlyFinish = Some (Inr (resultOf earlyFinish))"
    by code_simp
  have valid: "validInput earlyFinish"
    by code_simp
  from changes_exact [OF run valid]
  have "changes (resultOf earlyFinish) =
      concat (map (changeOf earlyFinish) (updatedWorkOrders (resultOf earlyFinish)))"
    by blast
  also have "\<dots> = [\<lparr> workOrderId = ''X'', chWorkOrderNumber = ''X'',
        oldStart = lit 2026 3 2 8 0, newStart = toISO (utc 2026 3 2 8 0),
        oldEnd = lit 2026 3 2 12 0, newEnd = toISO (utc 2026 3 2 9 0),
        deltaMinutes = - 180 \<rparr>]"
    by code_simp
  finally show ?thesis .
qed

text \<open>The maintenance order \<open>M1\<close> of the third scenario.\<close>

theorem maintenance_pinned_witness:
  "wo ''M1'' ''wc1'' (lit 2026 3 3 8 30) (lit 2026 3 3 9 30) 60 True []
     \<in> set (updatedWorkOrders (resultOf scenario3_maintenanceConflict))"
proof -
  let ?m = "wo ''M1'' ''wc1'' (lit 2026 3 3 8 30) (lit 2026 3 3 9 30) 60 True []"
  have run: "reflow scenario3_maintenanceConflict = Some (Inr (resultOf scenario3_maintenanceConflict))"
    by code_simp
  have valid: "validInput scenario3_maintenanceConflict"
    by code_simp
  have m: "?m \<in> set (workOrders scenario3_maintenanceConflict)"
    by (simp add: scenario3_maintenanceConflict_def)
  have maint: "isMaintenance ?m"
    by (simp add: wo_def)
  from maintenance_pinned [OF run valid m maint] show ?thesis by blast
qed

end
